theory Spec2Isabelle
  imports Main "HOL-Library.AList"
begin

unbundle bit_operations_syntax

section \<open>Python values and built-ins the script relies on\<close>

text \<open>
  The script is \<^verbatim>\<open>walkin__sample_use_partid_cli_time.py\<close>. Scan vectors are Python
  strings over the characters 0 and 1, bit indices and bit values are Python integers
  (unbounded, so \<^typ>\<open>int\<close>), and the pin table is a dictionary from bit index to a
  dictionary of six string fields. An exception is a value of type \<open>error\<close>; a function
  that can raise returns \<open>error + 'a\<close> with \<open>Inl\<close> for the exception.
\<close>

datatype error = IndexError | KeyError | ValueError

text \<open>
  The slices \<^verbatim>\<open>s[:k]\<close> and \<^verbatim>\<open>s[k:]\<close>. A negative bound counts from the end and
  is clamped at the start of the string; a bound beyond the end is clamped at the end
  (\<open>take\<close> and \<open>drop\<close> do that already). Slicing never raises.
\<close>

definition slice_to :: "int \<Rightarrow> 'a list \<Rightarrow> 'a list" where
  "slice_to k s = (if k < 0 then take (nat (int (length s) + k)) s else take (nat k) s)"

definition slice_from :: "int \<Rightarrow> 'a list \<Rightarrow> 'a list" where
  "slice_from k s = (if k < 0 then drop (nat (int (length s) + k)) s else drop (nat k) s)"

text \<open>\<^verbatim>\<open>xs[i]\<close> for an index produced by \<^verbatim>\<open>range\<close> (never negative).\<close>

definition list_get :: "'a list \<Rightarrow> nat \<Rightarrow> error + 'a" where
  "list_get xs i = (if i < length xs then Inr (xs ! i) else Inl IndexError)"

text \<open>\<^verbatim>\<open>str(n)\<close> for an integer: decimal digits, with a minus sign when negative.\<close>

definition digit_char :: "nat \<Rightarrow> char" where
  "digit_char d = ''0123456789'' ! d"

fun digits10 :: "nat \<Rightarrow> string" where
  "digits10 n = (if n < 10 then [digit_char n] else digits10 (n div 10) @ [digit_char (n mod 10)])"

declare digits10.simps [simp del]

definition str_int :: "int \<Rightarrow> string" where
  "str_int i = (if i < 0 then CHR ''-'' # digits10 (nat (- i)) else digits10 (nat i))"

text \<open>
  \<^verbatim>\<open>int(s)\<close> for a token of the pin table: an optional sign, then decimal digits, where
  single underscores may separate digits; anything else raises ValueError. (Tokens come
  from \<^verbatim>\<open>split()\<close> and hold no white space; digits outside ASCII, which Python also
  accepts, are not representable in a byte string and are left out.)
\<close>

definition digit_val :: "char \<Rightarrow> nat option" where
  "digit_val c = map_of (zip ''0123456789'' [0, 1, 2, 3, 4, 5, 6, 7, 8, 9]) c"

fun parse_digits :: "string \<Rightarrow> nat \<Rightarrow> bool \<Rightarrow> nat option" where
  "parse_digits [] acc prev_digit = (if prev_digit then Some acc else None)"
| "parse_digits (c # cs) acc prev_digit =
     (if c = CHR ''_'' then
        (if prev_digit \<and> cs \<noteq> [] then parse_digits cs acc False else None)
      else (case digit_val c of
              None \<Rightarrow> None
            | Some d \<Rightarrow> parse_digits cs (10 * acc + d) True))"

definition py_int :: "string \<Rightarrow> error + int" where
  "py_int s =
     (case (case s of
              [] \<Rightarrow> None
            | c # r \<Rightarrow>
                if c = CHR ''-'' then map_option (\<lambda>n. - int n) (parse_digits r 0 False)
                else if c = CHR ''+'' then map_option int (parse_digits r 0 False)
                else map_option int (parse_digits s 0 False)) of
        None \<Rightarrow> Inl ValueError
      | Some i \<Rightarrow> Inr i)"

text \<open>
  \<^verbatim>\<open>line.strip().split()\<close>: the maximal runs of characters that are not white space
  (the ASCII white space of \<^verbatim>\<open>str.isspace\<close>: space, tab, line feed, vertical tab,
  form feed, carriage return and the four separators 0x1C to 0x1F).
\<close>

definition is_space :: "char \<Rightarrow> bool" where
  "is_space c = (c \<in> set [CHR '' '', CHR 0x09, CHR 0x0A, CHR 0x0B, CHR 0x0C, CHR 0x0D,
                           CHR 0x1C, CHR 0x1D, CHR 0x1E, CHR 0x1F])"

fun split_loop :: "string \<Rightarrow> string \<Rightarrow> string list" where
  "split_loop [] cur = (if cur = [] then [] else [rev cur])"
| "split_loop (c # cs) cur =
     (if is_space c then (if cur = [] then split_loop cs [] else rev cur # split_loop cs [])
      else split_loop cs (c # cur))"

definition py_split :: "string \<Rightarrow> string list" where
  "py_split line = split_loop line []"


section \<open>Reading the converted BSDL file\<close>

text \<open>
  One value of \<^verbatim>\<open>bit_info_dict\<close>: the six fields stored for a bit. The last three are
  \<^verbatim>\<open>None\<close> when the line has no such token.
\<close>

record bit_info =
  io_type :: string
  safe_value :: string
  pin_name :: string
  control_bit :: "string option"
  disable_value :: "string option"
  disable_status :: "string option"

text \<open>
  The dictionary keeps insertion order and one entry per key: an association list whose
  keys are distinct. \<^verbatim>\<open>d[k] = v\<close> is \<^const>\<open>AList.update\<close> (replace in place, or append),
  \<^verbatim>\<open>k in d\<close> and \<^verbatim>\<open>d[k]\<close> are \<^const>\<open>map_of\<close>.
\<close>

type_synonym bit_info_dict = "(int \<times> bit_info) list"

definition bit_entry :: "string list \<Rightarrow> bit_info" where
  "bit_entry components =
     \<lparr> io_type = components ! 2,
       safe_value = components ! 3,
       pin_name = components ! 4,
       control_bit = (if length components > 5 then Some (components ! 5) else None),
       disable_value = (if length components > 6 then Some (components ! 6) else None),
       disable_status = (if length components > 7 then Some (components ! 7) else None) \<rparr>"

text \<open>
  \<^verbatim>\<open>get_dictionary_from_bsdl\<close>, from the lines of the opened file on. Every exception
  inside the loop (a missing token, a bit index that is no integer) is caught by the
  function's \<^verbatim>\<open>except Exception\<close>, which prints a message and lets the function return
  \<^verbatim>\<open>None\<close>: the result is an option.
\<close>

fun bsdl_loop :: "string list \<Rightarrow> bit_info_dict \<Rightarrow> bit_info_dict option" where
  "bsdl_loop [] bit_info_dict = Some bit_info_dict"
| "bsdl_loop (line # rest) bit_info_dict =
     (if take 3 line = ''bit'' then
        (let components = py_split line in
         if length components < 2 then None
         else (case py_int (components ! 1) of
                 Inl e \<Rightarrow> None
               | Inr bit_no \<Rightarrow>
                   if length components < 5 then None
                   else if components ! 4 \<noteq> ''*'' \<and>
                           (components ! 2 = ''O'' \<or> components ! 2 = ''I'' \<or> components ! 2 = ''B'')
                   then bsdl_loop rest (AList.update bit_no (bit_entry components) bit_info_dict)
                   else if components ! 4 = ''*'' \<and> components ! 2 = ''C''
                   then bsdl_loop rest (AList.update bit_no (bit_entry components) bit_info_dict)
                   else bsdl_loop rest bit_info_dict))
      else bsdl_loop rest bit_info_dict)"

definition get_dictionary_from_bsdl :: "string list \<Rightarrow> bit_info_dict option" where
  "get_dictionary_from_bsdl bsdl_file = bsdl_loop bsdl_file []"


section \<open>Bit string generation\<close>

definition set_bits :: "string \<Rightarrow> int \<Rightarrow> int \<Rightarrow> string" where
  "set_bits output_string bit_position bit_value =
     slice_to bit_position output_string @ str_int bit_value
       @ slice_from (bit_position + 1) output_string"

text \<open>
  The block \<^verbatim>\<open>if info['control_bit'] is not None: ...\<close>, which both generators run on
  the string they are building. \<^verbatim>\<open>int(info['control_bit'])\<close> is evaluated before the
  disable value is looked at.
\<close>

definition enable_control :: "bit_info \<Rightarrow> string \<Rightarrow> error + string" where
  "enable_control info output_string =
     (case control_bit info of
        None \<Rightarrow> Inr output_string
      | Some cb \<Rightarrow>
          (case py_int cb of
             Inl e \<Rightarrow> Inl e
           | Inr cbit \<Rightarrow>
               (case disable_value info of
                  None \<Rightarrow> Inr output_string
                | Some dv \<Rightarrow>
                    (case py_int dv of
                       Inl e \<Rightarrow> Inl e
                     | Inr dval \<Rightarrow> Inr (set_bits output_string cbit (1 XOR dval))))))"

definition is_output :: "bit_info \<Rightarrow> bool" where
  "is_output info = (io_type info = ''O'' \<or> io_type info = ''B'')"

text \<open>
  \<^verbatim>\<open>get_list_of_walkins_output_string\<close>: the loop over \<^verbatim>\<open>sorted(bit_info_dict.items())\<close>
  (the keys are distinct, so the order is the order of the bit indices), with the list
  built so far as accumulator.
\<close>

fun walkins_loop :: "(int \<times> bit_info) list \<Rightarrow> string \<Rightarrow> int \<Rightarrow> string list \<Rightarrow> error + string list" where
  "walkins_loop [] walkin_string val dr_in_string_list = Inr dr_in_string_list"
| "walkins_loop ((bit_no, info) # rest) walkin_string val dr_in_string_list =
     (if is_output info then
        (case enable_control info (set_bits (rev walkin_string) bit_no val) of
           Inl e \<Rightarrow> Inl e
         | Inr output_string \<Rightarrow>
             walkins_loop rest walkin_string val (dr_in_string_list @ [rev output_string]))
      else walkins_loop rest walkin_string val dr_in_string_list)"

definition get_list_of_walkins_output_string ::
    "bit_info_dict \<Rightarrow> string \<Rightarrow> int \<Rightarrow> error + string list" where
  "get_list_of_walkins_output_string bit_info_dict walkin_string val =
     walkins_loop (sort_key fst bit_info_dict) walkin_string val []"

text \<open>
  \<^verbatim>\<open>get_walkin_zeros_or_once_setup_string\<close>; its first argument is what
  \<^verbatim>\<open>urc.get_dr_in_string()\<close> returned.
\<close>

fun setup_loop :: "(int \<times> bit_info) list \<Rightarrow> int \<Rightarrow> string \<Rightarrow> error + string" where
  "setup_loop [] val output_string = Inr output_string"
| "setup_loop ((bit_no, info) # rest) val output_string =
     (if is_output info then
        (case enable_control info (set_bits output_string bit_no (val XOR 1)) of
           Inl e \<Rightarrow> Inl e
         | Inr output_string' \<Rightarrow> setup_loop rest val output_string')
      else setup_loop rest val output_string)"

definition get_walkin_zeros_or_once_setup_string ::
    "string \<Rightarrow> bit_info_dict \<Rightarrow> int \<Rightarrow> error + string" where
  "get_walkin_zeros_or_once_setup_string dr_in_string bit_info_dict val =
     (case setup_loop (sort_key fst bit_info_dict) val dr_in_string of
        Inl e \<Rightarrow> Inl e
      | Inr output_string \<Rightarrow> Inr (rev output_string))"


section \<open>Bit and change check\<close>

text \<open>
  The comprehension that builds \<^verbatim>\<open>differing_bits\<close>: for every \<^verbatim>\<open>i\<close> in
  \<^verbatim>\<open>range(len(data_bits_old))\<close> it reads \<^verbatim>\<open>data_bits_old[i]\<close> and
  \<^verbatim>\<open>data_bits_new[i]\<close>; the second read raises IndexError when the new string is
  too short.
\<close>

fun differing_loop :: "nat list \<Rightarrow> string \<Rightarrow> string \<Rightarrow> error + (nat \<times> char \<times> char) list" where
  "differing_loop [] data_bits_old data_bits_new = Inr []"
| "differing_loop (i # rest) data_bits_old data_bits_new =
     (if i < length data_bits_new then
        (case differing_loop rest data_bits_old data_bits_new of
           Inl e \<Rightarrow> Inl e
         | Inr ds \<Rightarrow>
             Inr (if data_bits_old ! i \<noteq> data_bits_new ! i
                  then (i, data_bits_old ! i, data_bits_new ! i) # ds else ds))
      else Inl IndexError)"

definition differing_bits :: "string \<Rightarrow> string \<Rightarrow> error + (nat \<times> char \<times> char) list" where
  "differing_bits data_bits_old data_bits_new =
     differing_loop [0..<length data_bits_old] data_bits_old data_bits_new"

text \<open>
  One step's summary dictionary maps a key (\<^verbatim>\<open>"extest"\<close>, \<^verbatim>\<open>"extestio"\<close>,
  \<^verbatim>\<open>"sample"\<close>, \<^verbatim>\<open>"sampleio"\<close>) to a list of strings. The lines the loop prints
  unconditionally are kept as \<open>out_line\<close> values (without the elapsed time in front).
\<close>

type_synonym summary_dict = "string \<rightharpoonup> string list"

datatype out_line = Bit_line nat char char | Pin_line string

definition io_string :: "char \<Rightarrow> char \<Rightarrow> string" where
  "io_string old new = [old] @ '' -> '' @ [new]"

text \<open>
  The body of \<^verbatim>\<open>for bit_info in differing_bits\<close>, on the two lists under construction
  and the printed lines. \<open>wstate\<close> is the global \<^verbatim>\<open>walkin_state\<close>.
\<close>

definition lookup_step ::
    "bit_info_dict \<Rightarrow> int \<Rightarrow> (string list \<times> string list \<times> out_line list) \<Rightarrow> (nat \<times> char \<times> char)
       \<Rightarrow> (string list \<times> string list \<times> out_line list)" where
  "lookup_step bsdl_dictionary wstate acc bit_info =
     (case (acc, bit_info) of ((names, ios, printed), (i, old, new)) \<Rightarrow>
        (case map_of bsdl_dictionary (int i) of
           None \<Rightarrow> (names, ios, printed @ [Bit_line i old new])
         | Some info \<Rightarrow>
             (let printed' = printed @ [Bit_line i old new, Pin_line (pin_name info)];
                  (names1, ios1) =
                     (if wstate = 0 \<and> old = CHR ''1''
                      then (names @ [pin_name info], ios @ [io_string old new])
                      else (names, ios));
                  (names2, ios2) =
                     (if wstate = 1 \<and> old = CHR ''0''
                      then (names1 @ [pin_name info], ios1 @ [io_string old new])
                      else (names1, ios1))
              in (names2, ios2, printed'))))"

definition dr_out_changes_lookup ::
    "string \<Rightarrow> string \<Rightarrow> bit_info_dict \<Rightarrow> summary_dict \<Rightarrow> string \<Rightarrow> int
       \<Rightarrow> error + (out_line list \<times> summary_dict)" where
  "dr_out_changes_lookup data_bits_old data_bits_new bsdl_dictionary summary_dict summary_dict_key wstate =
     (case differing_bits data_bits_old data_bits_new of
        Inl e \<Rightarrow> Inl e
      | Inr ds \<Rightarrow>
          (case foldl (lookup_step bsdl_dictionary wstate) ([], [], []) ds of
             (names, ios, printed) \<Rightarrow>
               Inr (printed,
                    (summary_dict(summary_dict_key \<mapsto> names))(summary_dict_key @ ''io'' \<mapsto> ios))))"

definition dr_shift_comapre ::
    "string \<Rightarrow> string \<Rightarrow> bit_info_dict \<Rightarrow> summary_dict \<Rightarrow> string \<Rightarrow> int
       \<Rightarrow> error + (string \<times> summary_dict)" where
  "dr_shift_comapre dr_init_bits dr_bits_new bsdl_dictionary summary_dict summary_dict_key wstate =
     (case dr_out_changes_lookup dr_init_bits dr_bits_new bsdl_dictionary summary_dict
             summary_dict_key wstate of
        Inl e \<Rightarrow> Inl e
      | Inr (printed, summary_dict') \<Rightarrow> Inr (dr_bits_new, summary_dict'))"

text \<open>\<^verbatim>\<open>sample_run\<close>; \<open>dr_bits_new\<close> is what \<^verbatim>\<open>urc.get_dr_out_string()\<close> returned.\<close>

definition sample_run ::
    "string \<Rightarrow> bit_info_dict \<Rightarrow> string \<Rightarrow> summary_dict \<Rightarrow> string \<Rightarrow> int
       \<Rightarrow> error + (string \<times> summary_dict)" where
  "sample_run dr_bits_new bsdl_dictionary dr_init_bits summary_dict summary_dict_key wstate =
     dr_shift_comapre (rev dr_init_bits) (rev dr_bits_new) bsdl_dictionary summary_dict
       summary_dict_key wstate"

text \<open>
  \<^verbatim>\<open>set_urc_bits\<close>: one pass of the loop per bit string. \<open>urc_dr_out k\<close> is the string
  the device returns from \<^verbatim>\<open>get_dr_out_string()\<close> in pass \<open>k\<close>; the last argument is the
  global \<^verbatim>\<open>summary_list\<close>, returned with one dictionary appended per pass. An exception
  leaves the loop (and, uncaught, the program).
\<close>

fun set_urc_bits_loop ::
    "(nat \<Rightarrow> string) \<Rightarrow> nat \<Rightarrow> string list \<Rightarrow> bit_info_dict \<Rightarrow> bit_info_dict \<Rightarrow> int
       \<Rightarrow> string \<Rightarrow> string \<Rightarrow> summary_dict list \<Rightarrow> error + summary_dict list" where
  "set_urc_bits_loop urc_dr_out k [] bit_info_dict sample_bsdl_dictionary wstate
       dr_init_bits dr_init_bits_sample summary_list = Inr summary_list"
| "set_urc_bits_loop urc_dr_out k (bits_string # rest) bit_info_dict sample_bsdl_dictionary wstate
       dr_init_bits dr_init_bits_sample summary_list =
     (case dr_shift_comapre (rev dr_init_bits) (rev bits_string) bit_info_dict Map.empty
             ''extest'' wstate of
        Inl e \<Rightarrow> Inl e
      | Inr (dr_init_bits', summary_dict1) \<Rightarrow>
          (case sample_run (urc_dr_out k) sample_bsdl_dictionary dr_init_bits_sample
                  summary_dict1 ''sample'' wstate of
             Inl e \<Rightarrow> Inl e
           | Inr (dr_init_bits_sample', summary_dict2) \<Rightarrow>
               set_urc_bits_loop urc_dr_out (Suc k) rest bit_info_dict sample_bsdl_dictionary wstate
                 (rev dr_init_bits') (rev dr_init_bits_sample') (summary_list @ [summary_dict2])))"

definition set_urc_bits ::
    "(nat \<Rightarrow> string) \<Rightarrow> string list \<Rightarrow> bit_info_dict \<Rightarrow> string \<Rightarrow> bit_info_dict \<Rightarrow> string
       \<Rightarrow> int \<Rightarrow> summary_dict list \<Rightarrow> error + summary_dict list" where
  "set_urc_bits urc_dr_out bits_string_list bit_info_dict walkin_string sample_bsdl_dictionary
       dr_init_bits_sample wstate summary_list =
     set_urc_bits_loop urc_dr_out 0 bits_string_list bit_info_dict sample_bsdl_dictionary wstate
       walkin_string dr_init_bits_sample summary_list"


section \<open>Summary\<close>

text \<open>
  What \<^verbatim>\<open>view_summary\<close> prints after \<^verbatim>\<open>key =>\<close>: the name of a pin, or one of the
  three fixed words.
\<close>

datatype verdict = Connected string | Interference | Partial | NotConnected

definition verdict_of :: "string list \<Rightarrow> verdict" where
  "verdict_of val =
     (if length val = 2 \<and> val ! 0 = val ! 1 then Connected (val ! 0)
      else if length val > 2 then Interference
      else if length val = 1 then Partial
      else NotConnected)"

text \<open>\<^verbatim>\<open>summary_dict[key]\<close>, which raises KeyError for a missing key.\<close>

definition dict_get :: "summary_dict \<Rightarrow> string \<Rightarrow> error + string list" where
  "dict_get summary_dict key = (case summary_dict key of None \<Rightarrow> Inl KeyError | Some v \<Rightarrow> Inr v)"

text \<open>
  \<^verbatim>\<open>summary_chain_dict\<close> keeps insertion order (the order of the printed lines).
  The inner loop over \<^verbatim>\<open>range(len(summary_dict["sampleio"]))\<close> for one direction:
\<close>

type_synonym chain_dict = "(string \<times> string list) list"

fun sample_loop ::
    "nat list \<Rightarrow> string \<Rightarrow> summary_dict \<Rightarrow> string \<Rightarrow> chain_dict \<Rightarrow> error + chain_dict" where
  "sample_loop [] direction summary_dict key summary_chain_dict = Inr summary_chain_dict"
| "sample_loop (sample_index # rest) direction summary_dict key summary_chain_dict =
     (case dict_get summary_dict ''sampleio'' of
        Inl e \<Rightarrow> Inl e
      | Inr sampleio \<Rightarrow>
          (case list_get sampleio sample_index of
             Inl e \<Rightarrow> Inl e
           | Inr io \<Rightarrow>
               if io = direction then
                 (case dict_get summary_dict ''sample'' of
                    Inl e \<Rightarrow> Inl e
                  | Inr sample \<Rightarrow>
                      (case list_get sample sample_index of
                         Inl e \<Rightarrow> Inl e
                       | Inr name \<Rightarrow>
                           sample_loop rest direction summary_dict key
                             (AList.map_entry key (\<lambda>v. v @ [name]) summary_chain_dict)))
               else sample_loop rest direction summary_dict key summary_chain_dict))"

definition match_samples ::
    "string \<Rightarrow> summary_dict \<Rightarrow> string \<Rightarrow> chain_dict \<Rightarrow> error + chain_dict" where
  "match_samples direction summary_dict key summary_chain_dict =
     (case dict_get summary_dict ''sampleio'' of
        Inl e \<Rightarrow> Inl e
      | Inr sampleio \<Rightarrow>
          sample_loop [0..<length sampleio] direction summary_dict key summary_chain_dict)"

text \<open>The loop over \<^verbatim>\<open>range(len(summary_dict["extestio"]))\<close>.\<close>

fun extest_loop :: "nat list \<Rightarrow> summary_dict \<Rightarrow> chain_dict \<Rightarrow> error + chain_dict" where
  "extest_loop [] summary_dict summary_chain_dict = Inr summary_chain_dict"
| "extest_loop (index # rest) summary_dict summary_chain_dict =
     (case dict_get summary_dict ''extest'' of
        Inl e \<Rightarrow> Inl e
      | Inr extest \<Rightarrow>
          (case list_get extest index of
             Inl e \<Rightarrow> Inl e
           | Inr key \<Rightarrow>
               (let chain1 = (if map_of summary_chain_dict key = None
                              then AList.update key [] summary_chain_dict
                              else summary_chain_dict)
                in (case dict_get summary_dict ''extestio'' of
                      Inl e \<Rightarrow> Inl e
                    | Inr extestio \<Rightarrow>
                        (case list_get extestio index of
                           Inl e \<Rightarrow> Inl e
                         | Inr io \<Rightarrow>
                             if io = ''0 -> 1'' then
                               (case match_samples ''0 -> 1'' summary_dict key chain1 of
                                  Inl e \<Rightarrow> Inl e
                                | Inr chain2 \<Rightarrow> extest_loop rest summary_dict chain2)
                             else if io = ''1 -> 0'' then
                               (case match_samples ''1 -> 0'' summary_dict key chain1 of
                                  Inl e \<Rightarrow> Inl e
                                | Inr chain2 \<Rightarrow> extest_loop rest summary_dict chain2)
                             else extest_loop rest summary_dict chain1)))))"

fun summary_loop :: "summary_dict list \<Rightarrow> chain_dict \<Rightarrow> error + chain_dict" where
  "summary_loop [] summary_chain_dict = Inr summary_chain_dict"
| "summary_loop (summary_dict # rest) summary_chain_dict =
     (case dict_get summary_dict ''extestio'' of
        Inl e \<Rightarrow> Inl e
      | Inr extestio \<Rightarrow>
          (case extest_loop [0..<length extestio] summary_dict summary_chain_dict of
             Inl e \<Rightarrow> Inl e
           | Inr chain' \<Rightarrow> summary_loop rest chain'))"

text \<open>
  \<^verbatim>\<open>view_summary\<close> reads the global \<^verbatim>\<open>summary_list\<close> and prints one line per key of
  \<^verbatim>\<open>summary_chain_dict\<close>; the result is the list of these lines. It does not assign
  \<^verbatim>\<open>summary_list\<close>.
\<close>

definition summary_chain :: "summary_dict list \<Rightarrow> error + chain_dict" where
  "summary_chain summary_list = summary_loop summary_list []"

definition view_summary :: "summary_dict list \<Rightarrow> error + (string \<times> verdict) list" where
  "view_summary summary_list =
     (case summary_chain summary_list of
        Inl e \<Rightarrow> Inl e
      | Inr summary_chain_dict \<Rightarrow>
          Inr (map (\<lambda>(key, val). (key, verdict_of val)) summary_chain_dict))"


section \<open>Device identification\<close>

text \<open>
  \<^verbatim>\<open>format(decimal_number, '032b')\<close>: the binary digits of the number, filled with
  zeros on the left up to 32 characters (the sign counts as one of them); a number that
  needs more digits gets them all.
\<close>

fun bin_digits :: "nat \<Rightarrow> string" where
  "bin_digits n = (if n < 2 then [digit_char n] else bin_digits (n div 2) @ [digit_char (n mod 2)])"

declare bin_digits.simps [simp del]

definition zero_fill :: "nat \<Rightarrow> string \<Rightarrow> string" where
  "zero_fill width s = replicate (width - length s) (CHR ''0'') @ s"

definition decimal_to_32bit_binary :: "int \<Rightarrow> string" where
  "decimal_to_32bit_binary decimal_number =
     (if decimal_number < 0 then CHR ''-'' # zero_fill 31 (bin_digits (nat (- decimal_number)))
      else zero_fill 32 (bin_digits (nat decimal_number)))"

text \<open>
  The three slices \<^verbatim>\<open>[:4]\<close>, \<^verbatim>\<open>[4:20]\<close> and \<^verbatim>\<open>[20:31]\<close> that \<^verbatim>\<open>main\<close> takes of
  the binary string of a device id.
\<close>

definition stepping_id :: "int \<Rightarrow> string" where
  "stepping_id device_id = take 4 (decimal_to_32bit_binary device_id)"

definition parts_id :: "int \<Rightarrow> string" where
  "parts_id device_id = drop 4 (take 20 (decimal_to_32bit_binary device_id))"

definition manufacture_id :: "int \<Rightarrow> string" where
  "manufacture_id device_id = drop 20 (take 31 (decimal_to_32bit_binary device_id))"


section \<open>One round of the main loop\<close>

text \<open>
  The two globals the summary depends on, with their values at module level.
\<close>

record session =
  walkin_state :: int
  summary_list :: "summary_dict list"

definition session_start :: session where
  "session_start = \<lparr> walkin_state = - 1, summary_list = [] \<rparr>"

text \<open>
  What the device answers during one round of \<^verbatim>\<open>while True\<close>: the two results of
  \<^verbatim>\<open>get_dr_in_string()\<close> (walking zeros set-up, walking ones set-up), and for each of
  the two walks the string of \<^verbatim>\<open>get_sample_shift_init_bits\<close> and the strings read in
  the passes of \<^verbatim>\<open>set_urc_bits\<close>.
\<close>

record urc_reads =
  dr_in_zeros :: string
  dr_in_ones :: string
  sample_init_zeros :: string
  sample_zeros :: "nat \<Rightarrow> string"
  sample_init_ones :: string
  sample_ones :: "nat \<Rightarrow> string"

text \<open>
  The round up to the second call of \<^verbatim>\<open>set_urc_bits\<close>, then \<^verbatim>\<open>view_summary()\<close>
  followed by \<^verbatim>\<open>summary_list = []\<close>. The prompts and the instruction shifts do not
  touch the two globals. An exception ends the program (only KeyboardInterrupt is caught).
\<close>

definition run_walks :: "urc_reads \<Rightarrow> bit_info_dict \<Rightarrow> bit_info_dict \<Rightarrow> session \<Rightarrow> error + session" where
  "run_walks urc extest_bit_info_dict sample_bit_info_dict st =
     (case get_walkin_zeros_or_once_setup_string (dr_in_zeros urc) extest_bit_info_dict 0 of
        Inl e \<Rightarrow> Inl e
      | Inr walkin_zero_string \<Rightarrow>
     (case get_walkin_zeros_or_once_setup_string (dr_in_ones urc) extest_bit_info_dict 1 of
        Inl e \<Rightarrow> Inl e
      | Inr walkin_ones_string \<Rightarrow>
     (case get_list_of_walkins_output_string extest_bit_info_dict walkin_zero_string 0 of
        Inl e \<Rightarrow> Inl e
      | Inr walkin_zero_output_list \<Rightarrow>
     (let st1 = st\<lparr>walkin_state := 0\<rparr> in
     (case set_urc_bits (sample_zeros urc) walkin_zero_output_list extest_bit_info_dict
             walkin_zero_string sample_bit_info_dict (sample_init_zeros urc)
             (walkin_state st1) (summary_list st1) of
        Inl e \<Rightarrow> Inl e
      | Inr summary_list1 \<Rightarrow>
     (case get_list_of_walkins_output_string extest_bit_info_dict walkin_ones_string 1 of
        Inl e \<Rightarrow> Inl e
      | Inr walkin_ones_output_list \<Rightarrow>
     (let st2 = st1\<lparr>summary_list := summary_list1, walkin_state := 1\<rparr> in
     (case set_urc_bits (sample_ones urc) walkin_ones_output_list extest_bit_info_dict
             walkin_ones_string sample_bit_info_dict (sample_init_ones urc)
             (walkin_state st2) (summary_list st2) of
        Inl e \<Rightarrow> Inl e
      | Inr summary_list2 \<Rightarrow> Inr (st2\<lparr>summary_list := summary_list2\<rparr>)))))))))"

definition main_loop_body ::
    "urc_reads \<Rightarrow> bit_info_dict \<Rightarrow> bit_info_dict \<Rightarrow> session
       \<Rightarrow> error + ((string \<times> verdict) list \<times> session)" where
  "main_loop_body urc extest_bit_info_dict sample_bit_info_dict st =
     (case run_walks urc extest_bit_info_dict sample_bit_info_dict st of
        Inl e \<Rightarrow> Inl e
      | Inr st' \<Rightarrow>
          (case view_summary (summary_list st') of
             Inl e \<Rightarrow> Inl e
           | Inr printed \<Rightarrow> Inr (printed, st'\<lparr>summary_list := []\<rparr>)))"


section \<open>Notions used to state the properties\<close>

text \<open>The character that \<^verbatim>\<open>str\<close> gives for a bit value.\<close>

definition bit_char :: "int \<Rightarrow> char" where
  "bit_char b = (if b = 1 then CHR ''1'' else CHR ''0'')"

text \<open>
  The positions at which two snapshots differ, with the old and the new character, in
  ascending order; the positions are those of the old snapshot.
\<close>

definition changed_bits :: "string \<Rightarrow> string \<Rightarrow> (nat \<times> char \<times> char) list" where
  "changed_bits old new =
     map (\<lambda>i. (i, old ! i, new ! i)) (filter (\<lambda>i. old ! i \<noteq> new ! i) [0..<length old])"

text \<open>
  The directional filter: a differing bit is attributed when the pin table knows the bit
  and the bit leaves the rest level of the running walk, that is 1 in a walking zeros
  pass (\<^verbatim>\<open>walkin_state\<close> 0) and 0 in a walking ones pass (\<^verbatim>\<open>walkin_state\<close> 1).
\<close>

definition attributed :: "bit_info_dict \<Rightarrow> int \<Rightarrow> (nat \<times> char \<times> char) \<Rightarrow> bool" where
  "attributed bsdl_dictionary wstate ch =
     (case ch of (i, old, new) \<Rightarrow>
        map_of bsdl_dictionary (int i) \<noteq> None \<and>
        ((wstate = 0 \<and> old = CHR ''1'') \<or> (wstate = 1 \<and> old = CHR ''0'')))"

definition change_pin :: "bit_info_dict \<Rightarrow> (nat \<times> char \<times> char) \<Rightarrow> string" where
  "change_pin bsdl_dictionary ch = pin_name (the (map_of bsdl_dictionary (int (fst ch))))"

definition change_io :: "(nat \<times> char \<times> char) \<Rightarrow> string" where
  "change_io ch = (case ch of (i, old, new) \<Rightarrow> io_string old new)"

text \<open>The differing bits among the printed lines.\<close>

fun reported :: "out_line list \<Rightarrow> (nat \<times> char \<times> char) list" where
  "reported [] = []"
| "reported (Bit_line i old new # rest) = (i, old, new) # reported rest"
| "reported (Pin_line p # rest) = reported rest"

text \<open>The lines the loop prints for one differing bit.\<close>

definition printed_lines :: "bit_info_dict \<Rightarrow> (nat \<times> char \<times> char) \<Rightarrow> out_line list" where
  "printed_lines d ch =
     (case ch of (i, old, new) \<Rightarrow>
        Bit_line i old new #
        (case map_of d (int i) of None \<Rightarrow> [] | Some info \<Rightarrow> [Pin_line (pin_name info)]))"

text \<open>
  The raw per-bit records of a pin table: the token lists of the lines that start with
  \<^verbatim>\<open>bit\<close>. A record is well shaped when it has at least the four fields after the
  marker and its bit index reads as an integer. The inclusion policy speaks about the
  direction code (token 2) and the pin name (token 4).
\<close>

definition raw_records :: "string list \<Rightarrow> string list list" where
  "raw_records bsdl_file = map py_split (filter (\<lambda>line. take 3 line = ''bit'') bsdl_file)"

definition well_shaped :: "string list \<Rightarrow> bool" where
  "well_shaped components =
     (5 \<le> length components \<and>
      (case py_int (components ! 1) of Inl e \<Rightarrow> False | Inr b \<Rightarrow> True))"

definition record_bit :: "string list \<Rightarrow> int" where
  "record_bit components = (case py_int (components ! 1) of Inl e \<Rightarrow> 0 | Inr b \<Rightarrow> b)"

definition included :: "string list \<Rightarrow> bool" where
  "included components =
     ((components ! 2 \<in> {''O'', ''I'', ''B''} \<and> components ! 4 \<noteq> ''*'') \<or>
      (components ! 2 = ''C'' \<and> components ! 4 = ''*''))"

text \<open>
  The bits \<open>hi\<close> down to \<open>lo\<close> of a number as a string of 0 and 1, most significant
  bit first.
\<close>

definition id_bits :: "int \<Rightarrow> nat \<Rightarrow> nat \<Rightarrow> string" where
  "id_bits n hi lo = map (\<lambda>i. if bit n i then CHR ''1'' else CHR ''0'') (rev [lo..<Suc hi])"

text \<open>
  A step record of a session summary as \<open>set_urc_bits\<close> builds it: the four keys are
  present, names and transitions come in pairs, and a driver transition is one of the two
  directions.
\<close>

definition well_formed_step :: "summary_dict \<Rightarrow> bool" where
  "well_formed_step sd =
     (case (sd ''extest'', sd ''extestio'', sd ''sample'', sd ''sampleio'') of
        (Some e, Some eio, Some s, Some sio) \<Rightarrow>
          length e = length eio \<and> length s = length sio \<and> set eio \<subseteq> {''0 -> 1'', ''1 -> 0''}
      | _ \<Rightarrow> False)"

text \<open>
  The observed pin names of a step whose transition has a given direction; what a step
  contributes to the list of a driver pin (for each of its attributed transitions, the
  observed names of the same direction); and the list of a driver pin over a session.
\<close>

definition sample_matches :: "summary_dict \<Rightarrow> string \<Rightarrow> string list" where
  "sample_matches sd direction =
     map fst (filter (\<lambda>(name, io). io = direction)
                (zip (the (sd ''sample'')) (the (sd ''sampleio''))))"

definition step_matches :: "summary_dict \<Rightarrow> string \<Rightarrow> string list" where
  "step_matches sd key =
     concat (map (\<lambda>(pin, direction). if pin = key then sample_matches sd direction else [])
               (zip (the (sd ''extest'')) (the (sd ''extestio''))))"

definition matched_names :: "summary_dict list \<Rightarrow> string \<Rightarrow> string list" where
  "matched_names steps key = concat (map (\<lambda>sd. step_matches sd key) steps)"

text \<open>The driver pin names with an attributed transition somewhere in the session.\<close>

definition driver_names :: "summary_dict list \<Rightarrow> string set" where
  "driver_names steps = (\<Union>sd \<in> set steps. set (the (sd ''extest'')))"

text \<open>
  The effect of one attributed driver transition on \<^verbatim>\<open>summary_chain_dict\<close>, and the list
  a key has in it (empty for a missing key).
\<close>

definition add_driver :: "summary_dict \<Rightarrow> chain_dict \<Rightarrow> string \<times> string \<Rightarrow> chain_dict" where
  "add_driver sd chain p =
     (case p of (key, direction) \<Rightarrow>
        AList.map_entry key (\<lambda>v. v @ sample_matches sd direction)
          (if map_of chain key = None then AList.update key [] chain else chain))"

definition chain_val :: "chain_dict \<Rightarrow> string \<Rightarrow> string list" where
  "chain_val chain key = (case map_of chain key of None \<Rightarrow> [] | Some v \<Rightarrow> v)"

text \<open>A string over the characters 0 and 1.\<close>

definition binary :: "string \<Rightarrow> bool" where
  "binary s = (set s \<subseteq> {CHR ''0'', CHR ''1''})"

text \<open>
  A smallest session used as a concrete instance: a driving device with the output pin
  P1 at bit 0, an observing device with the input pin S1 at bit 0, and a board on which
  S1 follows P1.
\<close>

definition demo_extest_dict :: bit_info_dict where
  "demo_extest_dict =
     [(0, \<lparr>io_type = ''O'', safe_value = ''1'', pin_name = ''P1'', control_bit = None,
            disable_value = None, disable_status = None\<rparr>)]"

definition demo_sample_dict :: bit_info_dict where
  "demo_sample_dict =
     [(0, \<lparr>io_type = ''I'', safe_value = ''1'', pin_name = ''S1'', control_bit = None,
            disable_value = None, disable_status = None\<rparr>)]"

definition demo_reads :: urc_reads where
  "demo_reads =
     \<lparr>dr_in_zeros = ''0'', dr_in_ones = ''0'', sample_init_zeros = ''1'',
      sample_zeros = (\<lambda>k. ''0''), sample_init_ones = ''0'', sample_ones = (\<lambda>k. ''1'')\<rparr>"

text \<open>
  A pin is gated when the pin table gives it both a control bit and a disable value; the
  control bit then sits at \<open>control_pos\<close> and is enabled by \<open>enable_char\<close>, the
  complement of the disable value.
\<close>

definition gated :: "bit_info \<Rightarrow> bool" where
  "gated info = (control_bit info \<noteq> None \<and> disable_value info \<noteq> None)"

definition control_pos :: "bit_info \<Rightarrow> nat" where
  "control_pos info = (case py_int (the (control_bit info)) of Inl e \<Rightarrow> 0 | Inr c \<Rightarrow> nat c)"

definition enable_char :: "bit_info \<Rightarrow> char" where
  "enable_char info =
     (if py_int (the (disable_value info)) = Inr 1 then CHR ''0'' else CHR ''1'')"

text \<open>
  An entry of the pin table fits a register of \<open>n\<close> bits when its bit index lies in the
  register, its control bit (if any) reads as an integer, and, for a gated pin, the
  control bit lies in the register and the disable value is 0 or 1.
\<close>

definition valid_pin :: "nat \<Rightarrow> int \<times> bit_info \<Rightarrow> bool" where
  "valid_pin n p =
     (case p of (b, info) \<Rightarrow>
        0 \<le> b \<and> b < int n \<and>
        (case control_bit info of
           None \<Rightarrow> True
         | Some cb \<Rightarrow>
             (case py_int cb of
                Inl e \<Rightarrow> False
              | Inr c \<Rightarrow>
                  (case disable_value info of
                     None \<Rightarrow> True
                   | Some dv \<Rightarrow>
                       0 \<le> c \<and> c < int n \<and> (py_int dv = Inr 0 \<or> py_int dv = Inr 1)))))"

definition valid_outputs :: "nat \<Rightarrow> bit_info_dict \<Rightarrow> bool" where
  "valid_outputs n d = list_all (valid_pin n) (filter (\<lambda>p. is_output (snd p)) d)"

text \<open>
  The walking vector of one pin in logical order: the baseline with the pin's bit at the
  walk level and, for a gated pin, its control bit at the enable value.
\<close>

definition walk_vector :: "string \<Rightarrow> int \<Rightarrow> int \<times> bit_info \<Rightarrow> string" where
  "walk_vector base val p =
     (case p of (b, info) \<Rightarrow>
        if gated info then (base[nat b := bit_char val])[control_pos info := enable_char info]
        else base[nat b := bit_char val])"

text \<open>The output and bidirectional pins of a pin table in ascending order of bit index.\<close>

definition output_pins :: "bit_info_dict \<Rightarrow> (int \<times> bit_info) list" where
  "output_pins d = filter (\<lambda>p. is_output (snd p)) (sort_key fst d)"

text \<open>
  What the set-up loop does for one entry of the pin table: an output or bidirectional
  pin gets the rest level (the complement of the walk level) and, if gated, its control
  bit enabled; any other entry leaves the string as it is.
\<close>

definition setup_step :: "int \<Rightarrow> string \<Rightarrow> int \<times> bit_info \<Rightarrow> string" where
  "setup_step val s p = (if is_output (snd p) then walk_vector s (val XOR 1) p else s)"

text \<open>
  An entry of the pin table leaves position \<open>c\<close> at the enable value 0: it is no output
  or bidirectional pin, or its own bit is not \<open>c\<close> and, if \<open>c\<close> is its control bit,
  its enable value is 0 as well.
\<close>

definition keeps_enabled :: "nat \<Rightarrow> int \<times> bit_info \<Rightarrow> bool" where
  "keeps_enabled c p =
     (if is_output (snd p)
      then nat (fst p) \<noteq> c \<and>
           (if gated (snd p) \<and> control_pos (snd p) = c then enable_char (snd p) = CHR ''0''
            else True)
      else True)"

text \<open>
  Two pin tables for concrete instances: one gated pin next to an ungated one, and two
  gated pins that share the control bit 2 with opposite disable values.
\<close>

definition demo_gated_dict :: bit_info_dict where
  "demo_gated_dict =
     [(1, \<lparr>io_type = ''O'', safe_value = ''1'', pin_name = ''P1'', control_bit = Some ''2'',
            disable_value = Some ''1'', disable_status = Some ''Z''\<rparr>),
      (0, \<lparr>io_type = ''B'', safe_value = ''1'', pin_name = ''P0'', control_bit = None,
            disable_value = None, disable_status = None\<rparr>),
      (2, \<lparr>io_type = ''C'', safe_value = ''1'', pin_name = ''*'', control_bit = None,
            disable_value = None, disable_status = None\<rparr>)]"

definition demo_shared_control_dict :: bit_info_dict where
  "demo_shared_control_dict =
     [(0, \<lparr>io_type = ''O'', safe_value = ''1'', pin_name = ''P0'', control_bit = Some ''2'',
            disable_value = Some ''1'', disable_status = Some ''Z''\<rparr>),
      (1, \<lparr>io_type = ''O'', safe_value = ''1'', pin_name = ''P1'', control_bit = Some ''2'',
            disable_value = Some ''0'', disable_status = Some ''Z''\<rparr>),
      (2, \<lparr>io_type = ''C'', safe_value = ''1'', pin_name = ''*'', control_bit = None,
            disable_value = None, disable_status = None\<rparr>)]"


section \<open>Setting one bit\<close>

lemma str_int_bit: "b = 0 \<or> b = 1 \<Longrightarrow> str_int b = [bit_char b]"
  by (auto simp: str_int_def bit_char_def digits10.simps digit_char_def)

lemma set_bits_update:
  assumes "0 \<le> i" and "i < int (length v)" and "str_int b = [c]"
  shows "set_bits v i b = v[nat i := c]"
proof -
  have n: "nat i < length v" using assms by linarith
  have "slice_to i v = take (nat i) v" using assms by (simp add: slice_to_def)
  moreover have "slice_from (i + 1) v = drop (Suc (nat i)) v"
    using assms by (simp add: slice_from_def nat_add_distrib)
  ultimately show ?thesis
    using assms(3) n by (simp add: set_bits_def upd_conv_take_nth_drop)
qed

lemma set_bits_append:
  assumes "int (length v) \<le> i"
  shows "set_bits v i b = v @ str_int b"
  using assms by (simp add: set_bits_def slice_to_def slice_from_def)

text \<open>
  C4, as the code has it. For a bit value 0 or 1 and an index inside the vector,
  \<open>set_bits\<close> returns a vector of the same length that holds the value at the index and
  agrees with the input everywhere else. For an index at or beyond the length it does not
  fail: the slices are clamped and the value is appended, so the result is one longer.
\<close>

theorem set_bits_in_and_out_of_range:
  assumes "bit_value = 0 \<or> bit_value = 1"
  shows "(0 \<le> index \<and> index < int (length v) \<longrightarrow>
            length (set_bits v index bit_value) = length v \<and>
            set_bits v index bit_value ! nat index = bit_char bit_value \<and>
            (\<forall>j < length v. j \<noteq> nat index \<longrightarrow> set_bits v index bit_value ! j = v ! j)) \<and>
         (int (length v) \<le> index \<longrightarrow> set_bits v index bit_value = v @ [bit_char bit_value])"
proof (intro conjI impI)
  assume r: "0 \<le> index \<and> index < int (length v)"
  have u: "set_bits v index bit_value = v[nat index := bit_char bit_value]"
    using r assms by (simp add: set_bits_update str_int_bit)
  have n: "nat index < length v" using r by linarith
  show "length (set_bits v index bit_value) = length v" by (simp add: u)
  show "set_bits v index bit_value ! nat index = bit_char bit_value" using n by (simp add: u)
  show "\<forall>j < length v. j \<noteq> nat index \<longrightarrow> set_bits v index bit_value ! j = v ! j"
    by (simp add: u)
next
  assume "int (length v) \<le> index"
  then show "set_bits v index bit_value = v @ [bit_char bit_value]"
    using assms by (simp add: set_bits_append str_int_bit)
qed

theorem set_bits_in_and_out_of_range_witness:
  "((0::int) = 0 \<or> (0::int) = 1) \<and>
   length (set_bits ''0101'' 1 0) = 4 \<and> set_bits ''0101'' 1 0 ! 1 = CHR ''0'' \<and>
   set_bits ''0101'' 1 0 ! 3 = CHR ''1'' \<and> set_bits ''0101'' 7 0 = ''01010''"
proof -
  have h: "(0::int) = 0 \<or> (0::int) = 1" by simp
  show ?thesis
    using set_bits_in_and_out_of_range [OF h, of 1 "''0101''"]
          set_bits_in_and_out_of_range [OF h, of 7 "''0101''"]
    by (simp add: bit_char_def)
qed

text \<open>
  The vector \<^verbatim>\<open>"01"\<close> has length 2; setting index 5 to 1 returns \<^verbatim>\<open>"011"\<close>, a
  vector of length 3, and no error.
\<close>

theorem set_bits_beyond_end_counterexample:
  "set_bits ''01'' 5 1 = ''011'' \<and> length (set_bits ''01'' 5 1) = Suc (length ''01'')"
  by (simp add: set_bits_def slice_to_def slice_from_def str_int_def digits10.simps digit_char_def)


section \<open>The change detector\<close>

lemma differing_loop_ok:
  "\<forall>i \<in> set js. i < length new \<Longrightarrow>
   differing_loop js old new =
     Inr (map (\<lambda>i. (i, old ! i, new ! i)) (filter (\<lambda>i. old ! i \<noteq> new ! i) js))"
  by (induction js) auto

lemma differing_loop_fail:
  "\<exists>i \<in> set js. \<not> i < length new \<Longrightarrow> differing_loop js old new = Inl IndexError"
proof (induction js)
  case Nil
  then show ?case by simp
next
  case (Cons j js)
  show ?case
  proof (cases "j < length new")
    case False
    then show ?thesis by simp
  next
    case True
    with Cons.prems have "\<exists>i \<in> set js. \<not> i < length new" by auto
    with Cons.IH True show ?thesis by simp
  qed
qed

lemma differing_bits_ok:
  "length old \<le> length new \<Longrightarrow> differing_bits old new = Inr (changed_bits old new)"
  unfolding differing_bits_def changed_bits_def
  by (rule differing_loop_ok) auto

lemma differing_bits_fail:
  assumes "length new < length old"
  shows "differing_bits old new = Inl IndexError"
proof -
  have "length new \<in> set [0..<length old]" using assms by simp
  then have "\<exists>i \<in> set [0..<length old]. \<not> i < length new" by blast
  then show ?thesis unfolding differing_bits_def by (rule differing_loop_fail)
qed

lemma changed_bits_prefix:
  assumes "length old \<le> length new"
  shows "changed_bits old (take (length old) new) = changed_bits old new"
proof -
  have eq: "\<And>i. i \<in> set [0..<length old] \<Longrightarrow> take (length old) new ! i = new ! i"
    by simp
  have "filter (\<lambda>i. old ! i \<noteq> take (length old) new ! i) [0..<length old] =
        filter (\<lambda>i. old ! i \<noteq> new ! i) [0..<length old]"
    by (rule filter_cong) (simp_all add: eq)
  moreover have "map (\<lambda>i. (i, old ! i, take (length old) new ! i))
          (filter (\<lambda>i. old ! i \<noteq> new ! i) [0..<length old]) =
        map (\<lambda>i. (i, old ! i, new ! i)) (filter (\<lambda>i. old ! i \<noteq> new ! i) [0..<length old])"
    by (rule map_cong) (simp_all add: eq)
  ultimately show ?thesis by (simp add: changed_bits_def)
qed

lemma lookup_step_eq:
  "lookup_step d ws (names, ios, printed) ch =
     (names @ (if attributed d ws ch then [change_pin d ch] else []),
      ios @ (if attributed d ws ch then [change_io ch] else []),
      printed @ printed_lines d ch)"
proof -
  obtain i old new where ch: "ch = (i, old, new)" by (cases ch) auto
  show ?thesis
    by (cases "map_of d (int i)")
       (auto simp: ch lookup_step_def attributed_def change_pin_def change_io_def printed_lines_def)
qed

lemma foldl_lookup_step:
  "foldl (lookup_step d ws) (names, ios, printed) ds =
     (names @ map (change_pin d) (filter (attributed d ws) ds),
      ios @ map change_io (filter (attributed d ws) ds),
      printed @ concat (map (printed_lines d) ds))"
  by (induction ds arbitrary: names ios printed) (simp_all add: lookup_step_eq)

lemma reported_append: "reported (xs @ ys) = reported xs @ reported ys"
  by (induction xs rule: reported.induct) auto

lemma reported_lines: "reported (concat (map (printed_lines d) ds)) = ds"
  by (induction ds) (auto simp: printed_lines_def split: option.splits)

lemma dr_out_changes_lookup_ok:
  assumes "length old \<le> length new"
  shows "dr_out_changes_lookup old new d sd key ws =
     Inr (concat (map (printed_lines d) (changed_bits old new)),
          (sd(key \<mapsto> map (change_pin d) (filter (attributed d ws) (changed_bits old new))))
            (key @ ''io'' \<mapsto> map change_io (filter (attributed d ws) (changed_bits old new))))"
  using assms by (simp add: dr_out_changes_lookup_def differing_bits_ok foldl_lookup_step)

lemma dr_out_changes_lookup_fail:
  "length new < length old \<Longrightarrow> dr_out_changes_lookup old new d sd key ws = Inl IndexError"
  by (simp add: dr_out_changes_lookup_def differing_bits_fail)

text \<open>
  C3. When the new snapshot is at least as long as the old one, \<open>dr_out_changes_lookup\<close>
  stores under the key the pin names, and under key + \<^verbatim>\<open>"io"\<close> the transitions, of
  exactly the attributed differing bits, in ascending order of position: the bits known
  to the pin table whose old value is 1 in a walking zeros pass and 0 in a walking ones
  pass. The other keys of the step's dictionary are untouched, so any other differing
  bit adds nothing to the summary; yet every differing bit is printed.
\<close>

theorem directional_filter:
  assumes "length old \<le> length new"
  shows "\<exists>printed sd'.
           dr_out_changes_lookup old new d sd key wstate = Inr (printed, sd') \<and>
           sd' key = Some (map (change_pin d) (filter (attributed d wstate) (changed_bits old new))) \<and>
           sd' (key @ ''io'') = Some (map change_io (filter (attributed d wstate) (changed_bits old new))) \<and>
           (\<forall>k. k \<noteq> key \<and> k \<noteq> key @ ''io'' \<longrightarrow> sd' k = sd k) \<and>
           reported printed = changed_bits old new"
  using assms by (simp add: dr_out_changes_lookup_ok reported_lines)

theorem directional_filter_witness:
  "length ''0110'' \<le> length ''1011'' \<and>
   (\<exists>printed sd'.
      dr_out_changes_lookup ''0110'' ''1011''
        [(0, \<lparr>io_type = ''O'', safe_value = ''1'', pin_name = ''P1'', control_bit = None,
               disable_value = None, disable_status = None\<rparr>),
         (1, \<lparr>io_type = ''O'', safe_value = ''1'', pin_name = ''P2'', control_bit = None,
               disable_value = None, disable_status = None\<rparr>)]
        Map.empty ''extest'' 0 = Inr (printed, sd') \<and>
      sd' ''extest'' = Some [''P2''] \<and> sd' ''extestio'' = Some [''1 -> 0''] \<and>
      reported printed = [(0, CHR ''0'', CHR ''1''), (1, CHR ''1'', CHR ''0''), (3, CHR ''0'', CHR ''1'')])"
proof -
  have h: "length ''0110'' \<le> length ''1011''" by simp
  show ?thesis
    using directional_filter [OF h, of
        "[(0, \<lparr>io_type = ''O'', safe_value = ''1'', pin_name = ''P1'', control_bit = None,
               disable_value = None, disable_status = None\<rparr>),
          (1, \<lparr>io_type = ''O'', safe_value = ''1'', pin_name = ''P2'', control_bit = None,
               disable_value = None, disable_status = None\<rparr>)]"
        Map.empty "''extest''" 0]
    by (auto simp: changed_bits_def attributed_def change_pin_def change_io_def io_string_def
          numeral_3_eq_3)
qed

text \<open>
  C5, as the code has it. The detector has no length check. When the new snapshot is
  shorter than the old one, reading it at the first missing position raises IndexError;
  when it is longer, nothing is raised: only the positions of the old snapshot are
  compared and the result is that of comparing the old snapshot with the prefix of the
  new one.
\<close>

theorem length_mismatch_behaviour:
  "(length new < length old \<longrightarrow>
      dr_out_changes_lookup old new d sd key wstate = Inl IndexError) \<and>
   (length old \<le> length new \<longrightarrow>
      (\<exists>r. dr_out_changes_lookup old new d sd key wstate = Inr r) \<and>
      dr_out_changes_lookup old new d sd key wstate =
        dr_out_changes_lookup old (take (length old) new) d sd key wstate)"
  by (simp add: dr_out_changes_lookup_fail dr_out_changes_lookup_ok changed_bits_prefix)

theorem length_mismatch_behaviour_witness:
  "length ''0'' < length ''01'' \<and>
   dr_out_changes_lookup ''01'' ''0'' [] Map.empty ''sample'' 0 = Inl IndexError \<and>
   length ''01'' \<le> length ''011'' \<and>
   dr_out_changes_lookup ''01'' ''011'' [] Map.empty ''sample'' 0 =
     dr_out_changes_lookup ''01'' ''01'' [] Map.empty ''sample'' 0"
  using length_mismatch_behaviour [of "''0''" "''01''" "[]" Map.empty "''sample''" 0]
        length_mismatch_behaviour [of "''011''" "''01''" "[]" Map.empty "''sample''" 0]
  by simp

text \<open>
  An old snapshot of one bit against a new one of two bits: no error, one differing bit
  reported, the second bit of the new snapshot never read.
\<close>

theorem longer_snapshot_counterexample:
  "dr_out_changes_lookup ''0'' ''11'' [] Map.empty ''extest'' 1 =
     Inr ([Bit_line 0 (CHR ''0'') (CHR ''1'')], [''extest'' \<mapsto> [], ''extestio'' \<mapsto> []])"
  by (simp add: dr_out_changes_lookup_def differing_bits_def lookup_step_def)


section \<open>Building the pin table\<close>

lemma bsdl_loop_spec:
  assumes "\<forall>cs \<in> set (raw_records bsdl_file). well_shaped cs"
  shows "\<exists>d. bsdl_loop bsdl_file d0 = Some d \<and>
             (distinct (map fst d0) \<longrightarrow> distinct (map fst d)) \<and>
             map_of d = map_of (rev (map (\<lambda>cs. (record_bit cs, bit_entry cs))
                                       (filter included (raw_records bsdl_file))) @ d0)"
  using assms
proof (induction bsdl_file arbitrary: d0)
  case Nil
  then show ?case by (simp add: raw_records_def)
next
  case (Cons line rest)
  have rest_ok: "\<forall>cs \<in> set (raw_records rest). well_shaped cs"
    using Cons.prems by (simp add: raw_records_def)
  show ?case
  proof (cases "take 3 line = ''bit''")
    case False
    then have "bsdl_loop (line # rest) d0 = bsdl_loop rest d0"
      and "raw_records (line # rest) = raw_records rest"
      by (simp_all add: raw_records_def)
    then show ?thesis using Cons.IH [OF rest_ok, of d0] by (simp only:)
  next
    case True
    define cs where "cs = py_split line"
    have recs: "raw_records (line # rest) = cs # raw_records rest"
      using True by (simp add: raw_records_def cs_def)
    have ws: "well_shaped cs" using Cons.prems recs by simp
    then obtain b where b: "py_int (cs ! 1) = Inr b" and len: "5 \<le> length cs"
      by (auto simp: well_shaped_def split: sum.splits)
    have rb: "record_bit cs = b" using b by (simp add: record_bit_def)
    show ?thesis
    proof (cases "included cs")
      case True
      have step: "bsdl_loop (line # rest) d0 = bsdl_loop rest (AList.update b (bit_entry cs) d0)"
        using \<open>take 3 line = ''bit''\<close> True len b
        by (auto simp: included_def cs_def Let_def)
      obtain d where d: "bsdl_loop rest (AList.update b (bit_entry cs) d0) = Some d"
        and dd: "distinct (map fst (AList.update b (bit_entry cs) d0)) \<longrightarrow> distinct (map fst d)"
        and dm: "map_of d = map_of (rev (map (\<lambda>cs. (record_bit cs, bit_entry cs))
                    (filter included (raw_records rest))) @ AList.update b (bit_entry cs) d0)"
        using Cons.IH [OF rest_ok, of "AList.update b (bit_entry cs) d0"] by blast
      have "map_of d = map_of (rev (map (\<lambda>cs. (record_bit cs, bit_entry cs))
                    (filter included (raw_records (line # rest)))) @ d0)"
        using True by (simp add: dm recs rb update_conv' map_add_def fun_eq_iff split: option.splits)
      then show ?thesis unfolding step using d dd by (simp add: distinct_update)
    next
      case False
      have step: "bsdl_loop (line # rest) d0 = bsdl_loop rest d0"
        using \<open>take 3 line = ''bit''\<close> False len b
        by (auto simp: included_def cs_def Let_def)
      show ?thesis unfolding step recs using Cons.IH [OF rest_ok, of d0] False by simp
    qed
  qed
qed


text \<open>
  C7. When every raw record is well shaped, \<open>get_dictionary_from_bsdl\<close> returns a pin
  table whose keys are exactly the bit indices of the records that satisfy the policy
  (direction code O, I or B with a pin name other than \<^verbatim>\<open>*\<close>, or direction code C with
  the pin name \<^verbatim>\<open>*\<close>); the entry of a key is that of the last such record; and when the
  bit indices of the records are distinct, a record's entry is in the table if and only
  if the record satisfies the policy. Every other record leaves the table as it is.
\<close>

theorem pin_map_inclusion_policy:
  assumes "\<forall>cs \<in> set (raw_records bsdl_file). well_shaped cs"
  shows "\<exists>d. get_dictionary_from_bsdl bsdl_file = Some d \<and> distinct (map fst d) \<and>
           (\<forall>b. (b \<in> fst ` set d) =
                 (\<exists>cs \<in> set (raw_records bsdl_file). record_bit cs = b \<and> included cs)) \<and>
           map_of d = map_of (rev (map (\<lambda>cs. (record_bit cs, bit_entry cs))
                                    (filter included (raw_records bsdl_file)))) \<and>
           (distinct (map record_bit (raw_records bsdl_file)) \<longrightarrow>
              (\<forall>cs \<in> set (raw_records bsdl_file).
                 (map_of d (record_bit cs) = Some (bit_entry cs)) = included cs))"
proof -
  let ?recs = "raw_records bsdl_file"
  let ?es = "rev (map (\<lambda>cs. (record_bit cs, bit_entry cs)) (filter included ?recs))"
  obtain d where d: "bsdl_loop bsdl_file [] = Some d"
    and dd: "distinct (map fst d)" and dm: "map_of d = map_of ?es"
    using bsdl_loop_spec [OF assms, of "[]"] by auto
  have keys: "fst ` set d = fst ` set ?es"
    using dm by (metis dom_map_of_conv_image_fst)
  have k: "\<forall>b. (b \<in> fst ` set d) = (\<exists>cs \<in> set ?recs. record_bit cs = b \<and> included cs)"
    unfolding keys by (auto simp: image_iff)
  have u: "\<forall>cs \<in> set ?recs. (map_of d (record_bit cs) = Some (bit_entry cs)) = included cs"
    if dist: "distinct (map record_bit ?recs)"
  proof
    fix cs assume cs: "cs \<in> set ?recs"
    have inj: "inj_on record_bit (set ?recs)" using dist by (simp add: distinct_map)
    show "(map_of d (record_bit cs) = Some (bit_entry cs)) = included cs"
    proof (cases "included cs")
      case True
      have "distinct (map record_bit (filter included ?recs))"
        using dist by (rule distinct_map_filter)
      then have "distinct (map fst ?es)" by (simp add: rev_map [symmetric] comp_def)
      moreover have "(record_bit cs, bit_entry cs) \<in> set ?es" using cs True by auto
      ultimately have "map_of ?es (record_bit cs) = Some (bit_entry cs)"
        by (rule map_of_is_SomeI)
      then show ?thesis using True by (simp add: dm)
    next
      case False
      have "record_bit cs \<notin> fst ` set ?es"
      proof
        assume "record_bit cs \<in> fst ` set ?es"
        then obtain cs' where c': "cs' \<in> set ?recs" "included cs'" "record_bit cs' = record_bit cs"
          by (auto simp: image_iff)
        then have "cs' = cs" using inj cs by (auto dest: inj_onD)
        then show False using c' False by simp
      qed
      then have "map_of ?es (record_bit cs) = None" by (simp add: map_of_eq_None_iff)
      then show ?thesis using False by (simp add: dm)
    qed
  qed
  show ?thesis
    unfolding get_dictionary_from_bsdl_def using d dd k dm u by blast
qed

theorem pin_map_inclusion_policy_witness:
  "list_all well_shaped (raw_records [''bit 0 O 1 P1 2 1 Z'', ''# pins'', ''bit 1 O 1 * 2 1 Z'',
        ''bit 2 C 1 *'', ''bit 3 C 0 X'', ''bit 4 I 0 P4'']) \<and>
   (\<exists>d. get_dictionary_from_bsdl [''bit 0 O 1 P1 2 1 Z'', ''# pins'', ''bit 1 O 1 * 2 1 Z'',
        ''bit 2 C 1 *'', ''bit 3 C 0 X'', ''bit 4 I 0 P4''] = Some d \<and>
        fst ` set d = {0, 2, 4})"
proof -
  let ?f = "[''bit 0 O 1 P1 2 1 Z'', ''# pins'', ''bit 1 O 1 * 2 1 Z'',
        ''bit 2 C 1 *'', ''bit 3 C 0 X'', ''bit 4 I 0 P4'']"
  have recs: "raw_records ?f =
      [[''bit'', ''0'', ''O'', ''1'', ''P1'', ''2'', ''1'', ''Z''],
       [''bit'', ''1'', ''O'', ''1'', ''*'', ''2'', ''1'', ''Z''],
       [''bit'', ''2'', ''C'', ''1'', ''*''], [''bit'', ''3'', ''C'', ''0'', ''X''],
       [''bit'', ''4'', ''I'', ''0'', ''P4'']]"
    by (simp add: raw_records_def py_split_def is_space_def)
  have h: "\<forall>cs \<in> set (raw_records ?f). well_shaped cs"
    unfolding recs by (simp add: well_shaped_def py_int_def digit_val_def)
  obtain d where d: "get_dictionary_from_bsdl ?f = Some d"
    and k: "\<forall>b. (b \<in> fst ` set d) =
                 (\<exists>cs \<in> set (raw_records ?f). record_bit cs = b \<and> included cs)"
    using pin_map_inclusion_policy [OF h] by blast
  have "fst ` set d = {0, 2, 4}"
    using k unfolding recs
    by (auto simp: record_bit_def included_def py_int_def digit_val_def)
  then show ?thesis using h d by (auto simp: list_all_iff)
qed


section \<open>Fields of the device id\<close>

lemma zero_fill_snoc:
  "zero_fill (Suc w) (xs @ [c]) = zero_fill w xs @ [c]"
  by (simp add: zero_fill_def)

lemma bin_digits_step:
  assumes "1 \<le> w"
  shows "zero_fill (Suc w) (bin_digits n) =
         zero_fill w (bin_digits (n div 2)) @ [if odd n then CHR ''1'' else CHR ''0'']"
proof (cases "n < 2")
  case True
  then have n: "n = 0 \<or> n = 1" by auto
  have z: "zero_fill w ''0'' = replicate w (CHR ''0'')"
    using assms by (cases w) (simp_all add: zero_fill_def replicate_append_same)
  have b: "bin_digits n = [if odd n then CHR ''1'' else CHR ''0'']"
    using n by (auto simp: bin_digits.simps [of 0] bin_digits.simps [of "Suc 0"] digit_char_def)
  have b0: "bin_digits (n div 2) = ''0''"
    using n by (auto simp: bin_digits.simps [of 0] digit_char_def)
  have "zero_fill (Suc w) [c] = replicate w (CHR ''0'') @ [c]" for c
    by (simp add: zero_fill_def)
  then show ?thesis by (simp only: b b0 z)
next
  case False
  have d: "digit_char (n mod 2) = (if odd n then CHR ''1'' else CHR ''0'')"
    by (cases "odd n") (simp_all add: digit_char_def odd_iff_mod_2_eq_one)
  have "bin_digits n = bin_digits (n div 2) @ [digit_char (n mod 2)]"
    using False by (subst bin_digits.simps) simp
  then show ?thesis by (simp add: zero_fill_snoc d)
qed

lemma rev_upt_Suc_shift: "rev [0..<Suc w] = map Suc (rev [0..<w]) @ [0]"
proof -
  have "[0..<Suc w] = 0 # map Suc [0..<w]" by (simp add: upt_conv_Cons map_Suc_upt del: upt_Suc)
  then show ?thesis by (simp add: rev_map del: upt_Suc)
qed

lemma zero_fill_bits:
  "1 \<le> w \<Longrightarrow> n < 2 ^ w \<Longrightarrow>
   zero_fill w (bin_digits n) = map (\<lambda>i. if bit n i then CHR ''1'' else CHR ''0'') (rev [0..<w])"
proof (induction w arbitrary: n)
  case 0
  then show ?case by simp
next
  case (Suc w)
  show ?case
  proof (cases "w = 0")
    case True
    with Suc.prems have "n = 0 \<or> n = 1" by auto
    then show ?thesis using True
      by (auto simp: bin_digits.simps [of 0] bin_digits.simps [of "Suc 0"]
        digit_char_def zero_fill_def bit_0)
  next
    case False
    then have w: "1 \<le> w" by simp
    have h: "n div 2 < 2 ^ w" using Suc.prems by (simp add: less_mult_imp_div_less)
    have "zero_fill (Suc w) (bin_digits n) =
          zero_fill w (bin_digits (n div 2)) @ [if odd n then CHR ''1'' else CHR ''0'']"
      using w by (rule bin_digits_step)
    also have "zero_fill w (bin_digits (n div 2)) =
          map (\<lambda>i. if bit (n div 2) i then CHR ''1'' else CHR ''0'') (rev [0..<w])"
      using Suc.IH [OF w h] .
    finally show ?thesis
      by (simp add: rev_upt_Suc_shift bit_Suc bit_0 comp_def del: upt_Suc)
  qed
qed

lemma length_bin_digits:
  "1 \<le> w \<Longrightarrow> 2 ^ (w - 1) \<le> n \<Longrightarrow> n < 2 ^ w \<Longrightarrow> length (bin_digits n) = w"
proof (induction w arbitrary: n)
  case 0
  then show ?case by simp
next
  case (Suc w)
  show ?case
  proof (cases "w = 0")
    case True
    with Suc.prems have "n = 1" by auto
    then show ?thesis using True by (simp add: bin_digits.simps [of "Suc 0"])
  next
    case False
    then have w: "1 \<le> w" by simp
    have "(2::nat) ^ 1 \<le> 2 ^ w" using w by (intro power_increasing) simp_all
    then have two: "\<not> n < 2" using Suc.prems(2) by simp
    have h: "n div 2 < 2 ^ w" using Suc.prems by (simp add: less_mult_imp_div_less)
    have "2 ^ w = 2 * (2::nat) ^ (w - 1)" using w by (cases w) simp_all
    then have l: "2 ^ (w - 1) \<le> n div 2" using Suc.prems(2) by simp
    have "bin_digits n = bin_digits (n div 2) @ [digit_char (n mod 2)]"
      using two by (subst bin_digits.simps) simp
    then show ?thesis using Suc.IH [OF w l h] by simp
  qed
qed


lemma binary_string_bits:
  assumes "0 \<le> n" and "32 \<le> w" and "n < 2 ^ w" and "w = 32 \<or> 2 ^ (w - 1) \<le> n"
  shows "decimal_to_32bit_binary n =
         map (\<lambda>i. if bit n i then CHR ''1'' else CHR ''0'') (rev [0..<w])"
proof -
  have w1: "1 \<le> w" using assms(2) by simp
  have lt: "nat n < 2 ^ w" using assms(1,3) by (simp add: nat_less_iff)
  have fill: "zero_fill 32 (bin_digits (nat n)) = zero_fill w (bin_digits (nat n))"
  proof (cases "w = 32")
    case True
    then show ?thesis by simp
  next
    case False
    then have "2 ^ (w - 1) \<le> n" using assms(4) by simp
    then have "2 ^ (w - 1) \<le> nat n" using assms(1) by (simp add: le_nat_iff)
    then have "length (bin_digits (nat n)) = w" using w1 lt by (simp add: length_bin_digits)
    then show ?thesis using assms(2) by (simp add: zero_fill_def)
  qed
  have "bit (nat n) i = bit n i" for i using assms(1) by (simp add: bit_nat_iff)
  then show ?thesis
    using assms(1) zero_fill_bits [OF w1 lt] by (simp add: decimal_to_32bit_binary_def fill)
qed

lemma take_rev_upt: "k \<le> w \<Longrightarrow> take k (rev [0..<w]) = rev [w - k..<w]"
  by (simp add: take_rev)

lemma fields_of_width:
  assumes "0 \<le> n" and "32 \<le> w" and "n < 2 ^ w" and "w = 32 \<or> 2 ^ (w - 1) \<le> n"
  shows "stepping_id n = id_bits n (w - 1) (w - 4)"
    and "parts_id n = id_bits n (w - 5) (w - 20)"
    and "manufacture_id n = id_bits n (w - 21) (w - 31)"
proof -
  note b = binary_string_bits [OF assms]
  have s1: "Suc (w - 1) = w" and s2: "Suc (w - 5) = w - 4" and s3: "Suc (w - 21) = w - 20"
    using assms(2) by simp_all
  show "stepping_id n = id_bits n (w - 1) (w - 4)"
    using assms(2) by (simp add: stepping_id_def id_bits_def b take_map take_rev_upt s1 del: upt_Suc)
  have "drop 4 (take 20 (rev [0..<w])) = rev [w - 20..<w - 4]"
    using assms(2) by (simp add: take_rev_upt drop_rev take_upt)
  then show "parts_id n = id_bits n (w - 5) (w - 20)"
    by (simp add: parts_id_def id_bits_def b take_map drop_map s2 del: upt_Suc)
  have "drop 20 (take 31 (rev [0..<w])) = rev [w - 31..<w - 20]"
    using assms(2) by (simp add: take_rev_upt drop_rev take_upt)
  then show "manufacture_id n = id_bits n (w - 21) (w - 31)"
    by (simp add: manufacture_id_def id_bits_def b take_map drop_map s3 del: upt_Suc)
qed

text \<open>
  C8, as the code has it. For a device id from 0 up to \<open>2 ^ 32 - 1\<close> the three slices
  are the bits 31 to 28 (stepping), 27 to 12 (part) and 11 to 1 (manufacturer) of the id.
  The binary string is never cut to 32 characters: an id that needs \<open>w > 32\<close> binary
  digits gives a string of \<open>w\<close> characters, and the same three slices then hold its
  bits \<open>w - 1\<close> to \<open>w - 4\<close>, \<open>w - 5\<close> to \<open>w - 20\<close> and \<open>w - 21\<close> to
  \<open>w - 31\<close>: the fields move with the bits above bit 31.
\<close>

theorem device_id_fields:
  "(0 \<le> device_id \<and> device_id < 2 ^ 32 \<longrightarrow>
      stepping_id device_id = id_bits device_id 31 28 \<and>
      parts_id device_id = id_bits device_id 27 12 \<and>
      manufacture_id device_id = id_bits device_id 11 1) \<and>
   (32 < w \<and> 2 ^ (w - 1) \<le> device_id \<and> device_id < 2 ^ w \<longrightarrow>
      stepping_id device_id = id_bits device_id (w - 1) (w - 4) \<and>
      parts_id device_id = id_bits device_id (w - 5) (w - 20) \<and>
      manufacture_id device_id = id_bits device_id (w - 21) (w - 31))"
proof (intro conjI impI)
  assume a: "0 \<le> device_id \<and> device_id < 2 ^ 32"
  then have *: "0 \<le> device_id" "(32::nat) \<le> 32" "device_id < 2 ^ 32"
    "(32::nat) = 32 \<or> 2 ^ (32 - 1) \<le> device_id" by simp_all
  show "stepping_id device_id = id_bits device_id 31 28"
    using fields_of_width(1) [OF *] by simp
  show "parts_id device_id = id_bits device_id 27 12"
    using fields_of_width(2) [OF *] by simp
  show "manufacture_id device_id = id_bits device_id 11 1"
    using fields_of_width(3) [OF *] by simp
next
  assume a: "32 < w \<and> 2 ^ (w - 1) \<le> device_id \<and> device_id < 2 ^ w"
  have p: "(0::int) \<le> 2 ^ (w - 1)" by simp
  have nn: "0 \<le> device_id" using a p by linarith
  have *: "0 \<le> device_id" "32 \<le> w" "device_id < 2 ^ w"
    "w = 32 \<or> 2 ^ (w - 1) \<le> device_id" using a nn by simp_all
  show "stepping_id device_id = id_bits device_id (w - 1) (w - 4)"
    using fields_of_width(1) [OF *] .
  show "parts_id device_id = id_bits device_id (w - 5) (w - 20)"
    using fields_of_width(2) [OF *] .
  show "manufacture_id device_id = id_bits device_id (w - 21) (w - 31)"
    using fields_of_width(3) [OF *] .
qed

theorem device_id_fields_witness:
  "(0::int) \<le> 1268778103 \<and> (1268778103::int) < 2 ^ 32 \<and>
   stepping_id 1268778103 = ''0100'' \<and> parts_id 1268778103 = ''1011101000000000'' \<and>
   manufacture_id 1268778103 = ''01000111011'' \<and>
   (32::nat) < 33 \<and> (2::int) ^ (33 - 1) \<le> 4294967296 \<and> (4294967296::int) < 2 ^ 33 \<and>
   stepping_id 4294967296 = id_bits 4294967296 32 29"
  using device_id_fields [of 1268778103 33] device_id_fields [of 4294967296 33]
  by (simp add: id_bits_def upt_rec)

text \<open>
  For the id \<open>2 ^ 32\<close> the stepping field is \<^verbatim>\<open>1000\<close>, taken from bits 32 to 29,
  while bits 31 to 28 of that id are \<^verbatim>\<open>0000\<close>.
\<close>

theorem device_id_above_32_bits_counterexample:
  "stepping_id 4294967296 = ''1000'' \<and> id_bits 4294967296 31 28 = ''0000''"
proof -
  have "decimal_to_32bit_binary 4294967296 = ''100000000000000000000000000000000''"
    by (simp add: decimal_to_32bit_binary_def zero_fill_def bin_digits.simps digit_char_def)
  then have "stepping_id 4294967296 = ''1000''" by (simp add: stepping_id_def)
  moreover have "id_bits 4294967296 31 28 = ''0000''" by (simp add: id_bits_def upt_rec)
  ultimately show ?thesis by simp
qed


section \<open>The summary\<close>

lemma map_entry_append:
  "AList.map_entry k (\<lambda>v. v @ ys) (AList.map_entry k (\<lambda>v. v @ xs) c) =
   AList.map_entry k (\<lambda>v. v @ xs @ ys) c"
  by (induction c) auto

lemma map_entry_ident: "AList.map_entry k (\<lambda>v. v) c = c"
  by (induction c) auto

lemma zip_as_map_nth:
  "length xs = length ys \<Longrightarrow> zip xs ys = map (\<lambda>i. (xs ! i, ys ! i)) [0..<length ys]"
  by (rule nth_equalityI) simp_all

lemma sample_loop_spec:
  assumes "sd ''sampleio'' = Some sio" and "sd ''sample'' = Some s" and "length s = length sio"
  shows "\<forall>i \<in> set js. i < length sio \<Longrightarrow>
         sample_loop js direction sd key chain =
           Inr (AList.map_entry key
                  (\<lambda>v. v @ map ((!) s) (filter (\<lambda>i. sio ! i = direction) js)) chain)"
proof (induction js arbitrary: chain)
  case Nil
  then show ?case by (simp add: map_entry_ident)
next
  case (Cons j js)
  then show ?case
    using assms by (simp add: dict_get_def list_get_def map_entry_append)
qed

lemma sample_matches_nth:
  assumes "sd ''sampleio'' = Some sio" and "sd ''sample'' = Some s" and "length s = length sio"
  shows "sample_matches sd direction =
         map ((!) s) (filter (\<lambda>i. sio ! i = direction) [0..<length sio])"
  using assms by (simp add: sample_matches_def zip_as_map_nth filter_map comp_def)

lemma match_samples_spec:
  assumes "sd ''sampleio'' = Some sio" and "sd ''sample'' = Some s" and "length s = length sio"
  shows "match_samples direction sd key chain =
           Inr (AList.map_entry key (\<lambda>v. v @ sample_matches sd direction) chain)"
proof -
  have "\<forall>i \<in> set [0..<length sio]. i < length sio" by simp
  then show ?thesis
    using assms
    by (simp add: match_samples_def dict_get_def sample_loop_spec [OF assms]
        sample_matches_nth [OF assms])
qed


lemma well_formed_stepE:
  assumes "well_formed_step sd"
  obtains e eio s sio where "sd ''extest'' = Some e" and "sd ''extestio'' = Some eio"
    and "sd ''sample'' = Some s" and "sd ''sampleio'' = Some sio"
    and "length e = length eio" and "length s = length sio"
    and "set eio \<subseteq> {''0 -> 1'', ''1 -> 0''}"
  using assms by (auto simp: well_formed_step_def split: option.splits)

lemma extest_loop_spec:
  assumes e: "sd ''extest'' = Some e" and eio: "sd ''extestio'' = Some eio"
    and s: "sd ''sample'' = Some s" and sio: "sd ''sampleio'' = Some sio"
    and le: "length e = length eio" and ls: "length s = length sio"
    and dirs: "set eio \<subseteq> {''0 -> 1'', ''1 -> 0''}"
  shows "\<forall>i \<in> set js. i < length eio \<Longrightarrow>
         extest_loop js sd chain =
           Inr (foldl (add_driver sd) chain (map (\<lambda>i. (e ! i, eio ! i)) js))"
proof (induction js arbitrary: chain)
  case Nil
  then show ?case by simp
next
  case (Cons j js)
  have j: "j < length eio" and rest: "\<forall>i \<in> set js. i < length eio" using Cons.prems by simp_all
  have d: "eio ! j = ''0 -> 1'' \<or> eio ! j = ''1 -> 0''"
  proof -
    have "eio ! j \<in> set eio" using j by (rule nth_mem)
    then have "eio ! j \<in> {''0 -> 1'', ''1 -> 0''}" using dirs by (rule rev_subsetD)
    then show ?thesis by blast
  qed
  note ms = match_samples_spec [OF sio s ls]
  let ?chain1 = "if map_of chain (e ! j) = None then AList.update (e ! j) [] chain else chain"
  have "extest_loop (j # js) sd chain = extest_loop js sd (add_driver sd chain (e ! j, eio ! j))"
    using d j le e eio
    by (auto simp: dict_get_def list_get_def ms add_driver_def Let_def)
  then show ?case using Cons.IH [OF rest] by (simp only: list.map foldl_Cons)
qed

lemma summary_loop_spec:
  "\<forall>sd \<in> set steps. well_formed_step sd \<Longrightarrow>
   summary_loop steps chain =
     Inr (foldl (\<lambda>c sd. foldl (add_driver sd) c (zip (the (sd ''extest'')) (the (sd ''extestio''))))
            chain steps)"
proof (induction steps arbitrary: chain)
  case Nil
  then show ?case by simp
next
  case (Cons sd steps)
  have "well_formed_step sd" using Cons.prems by simp
  then obtain e eio s sio where w: "sd ''extest'' = Some e" "sd ''extestio'' = Some eio"
    "sd ''sample'' = Some s" "sd ''sampleio'' = Some sio"
    "length e = length eio" "length s = length sio" "set eio \<subseteq> {''0 -> 1'', ''1 -> 0''}"
    by (rule well_formed_stepE)
  have "\<forall>i \<in> set [0..<length eio]. i < length eio" by simp
  then have "extest_loop [0..<length eio] sd chain =
      Inr (foldl (add_driver sd) chain (map (\<lambda>i. (e ! i, eio ! i)) [0..<length eio]))"
    by (rule extest_loop_spec [OF w])
  also have "map (\<lambda>i. (e ! i, eio ! i)) [0..<length eio] = zip e eio"
    using w(5) by (simp add: zip_as_map_nth)
  finally have "extest_loop [0..<length eio] sd chain = Inr (foldl (add_driver sd) chain (zip e eio))" .
  then show ?case using Cons w by (simp add: dict_get_def)
qed

lemma add_driver_distinct:
  "distinct (map fst chain) \<Longrightarrow> distinct (map fst (add_driver sd chain p))"
  by (cases p) (simp add: add_driver_def distinct_map_entry distinct_update)

lemma add_driver_keys: "fst ` set (add_driver sd chain (key, dir)) = insert key (fst ` set chain)"
  by (auto simp: add_driver_def dom_map_entry dom_update map_of_eq_None_iff)

lemma add_driver_val:
  "chain_val (add_driver sd chain (key, dir)) k =
     chain_val chain k @ (if key = k then sample_matches sd dir else [])"
  by (auto simp: add_driver_def chain_val_def map_of_map_entry update_conv' split: option.splits)

lemma foldl_add_driver_distinct:
  "distinct (map fst chain) \<Longrightarrow> distinct (map fst (foldl (add_driver sd) chain ps))"
  by (induction ps arbitrary: chain) (simp_all add: add_driver_distinct)

lemma foldl_add_driver_keys:
  "fst ` set (foldl (add_driver sd) chain ps) = fst ` set chain \<union> fst ` set ps"
proof (induction ps arbitrary: chain)
  case Nil
  show ?case by simp
next
  case (Cons p ps)
  obtain key dir where p: "p = (key, dir)" by (cases p) auto
  show ?case using Cons.IH [of "add_driver sd chain p"] by (auto simp: p add_driver_keys)
qed

lemma foldl_add_driver_val:
  "chain_val (foldl (add_driver sd) chain ps) k =
     chain_val chain k @
     concat (map (\<lambda>(pin, direction). if pin = k then sample_matches sd direction else []) ps)"
proof (induction ps arbitrary: chain)
  case Nil
  show ?case by simp
next
  case (Cons p ps)
  obtain key dir where p: "p = (key, dir)" by (cases p) auto
  show ?case using Cons.IH [of "add_driver sd chain p"] by (simp add: p add_driver_val)
qed

lemma foldl_steps_distinct:
  "distinct (map fst chain) \<Longrightarrow>
     distinct (map fst (foldl (\<lambda>c sd. foldl (add_driver sd) c
        (zip (the (sd ''extest'')) (the (sd ''extestio'')))) chain steps))"
  by (induction steps arbitrary: chain) (simp_all add: foldl_add_driver_distinct)

lemma foldl_steps_keys:
  "\<forall>sd \<in> set steps. well_formed_step sd \<Longrightarrow>
   fst ` set (foldl (\<lambda>c sd. foldl (add_driver sd) c
        (zip (the (sd ''extest'')) (the (sd ''extestio'')))) chain steps) =
     fst ` set chain \<union> driver_names steps"
proof (induction steps arbitrary: chain)
  case Nil
  show ?case by (simp add: driver_names_def)
next
  case (Cons sd steps)
  let ?c = "foldl (add_driver sd) chain (zip (the (sd ''extest'')) (the (sd ''extestio'')))"
  from Cons.prems have "well_formed_step sd"
    and rest: "\<forall>sd \<in> set steps. well_formed_step sd" by simp_all
  then have "length (the (sd ''extest'')) = length (the (sd ''extestio''))"
    by (auto elim: well_formed_stepE)
  then have "fst ` set (zip (the (sd ''extest'')) (the (sd ''extestio''))) = set (the (sd ''extest''))"
    by (metis list.set_map map_fst_zip)
  then have "fst ` set ?c = fst ` set chain \<union> set (the (sd ''extest''))"
    by (simp add: foldl_add_driver_keys)
  then show ?case using Cons.IH [OF rest, of ?c] by (auto simp: driver_names_def)
qed

lemma foldl_steps_val:
  "chain_val (foldl (\<lambda>c sd. foldl (add_driver sd) c
        (zip (the (sd ''extest'')) (the (sd ''extestio'')))) chain steps) k =
     chain_val chain k @ matched_names steps k"
proof (induction steps arbitrary: chain)
  case Nil
  show ?case by (simp add: matched_names_def)
next
  case (Cons sd steps)
  show ?case
    using Cons.IH [of "foldl (add_driver sd) chain (zip (the (sd ''extest'')) (the (sd ''extestio'')))"]
    by (simp add: matched_names_def step_matches_def foldl_add_driver_val)
qed

lemma summary_chain_spec:
  assumes "\<forall>sd \<in> set steps. well_formed_step sd"
  shows "\<exists>chain. summary_chain steps = Inr chain \<and> distinct (map fst chain) \<and>
           fst ` set chain = driver_names steps \<and>
           (\<forall>k. chain_val chain k = matched_names steps k)"
  using assms foldl_steps_distinct [of "[]" steps] foldl_steps_keys [OF assms, of "[]"]
    foldl_steps_val [of "[]" steps]
  by (simp add: summary_chain_def summary_loop_spec chain_val_def)

lemma verdict_of_cases:
  "(length L = 2 \<and> L ! 0 = L ! 1 \<longrightarrow> verdict_of L = Connected (L ! 0)) \<and>
   (2 < length L \<longrightarrow> verdict_of L = Interference) \<and>
   (length L = 1 \<longrightarrow> verdict_of L = Partial) \<and>
   (L = [] \<or> (length L = 2 \<and> L ! 0 \<noteq> L ! 1) \<longrightarrow> verdict_of L = NotConnected)"
  by (auto simp: verdict_of_def)

text \<open>
  C1. For a session summary of well-formed step records, \<open>view_summary\<close> prints one
  line per driver pin name, and the verdict on the line of a driver pin is decided by its
  list \<open>L = matched_names steps key\<close>, the concatenation over all steps of what each
  step contributes (for every attributed transition of that driver pin in the step, the
  attributed observed pin names whose transition has the same direction): the first name
  if \<open>L\<close> has two equal elements, Interference if \<open>L\<close> has more than two elements,
  Partial if it has one, Not connected if it is empty or has two different elements.
\<close>

theorem classifier_verdicts:
  assumes "\<forall>sd \<in> set steps. well_formed_step sd"
  shows "\<exists>vs. view_summary steps = Inr vs \<and> distinct (map fst vs) \<and>
           (\<forall>key v. (key, v) \<in> set vs \<longrightarrow>
              (length (matched_names steps key) = 2 \<and>
               matched_names steps key ! 0 = matched_names steps key ! 1 \<longrightarrow>
                 v = Connected (matched_names steps key ! 0)) \<and>
              (2 < length (matched_names steps key) \<longrightarrow> v = Interference) \<and>
              (length (matched_names steps key) = 1 \<longrightarrow> v = Partial) \<and>
              (matched_names steps key = [] \<or>
               (length (matched_names steps key) = 2 \<and>
                matched_names steps key ! 0 \<noteq> matched_names steps key ! 1) \<longrightarrow>
                 v = NotConnected))"
proof -
  obtain chain where c: "summary_chain steps = Inr chain" and d: "distinct (map fst chain)"
    and v: "\<forall>k. chain_val chain k = matched_names steps k"
    using summary_chain_spec [OF assms] by blast
  let ?vs = "map (\<lambda>(key, val). (key, verdict_of val)) chain"
  have vs: "view_summary steps = Inr ?vs" by (simp add: view_summary_def c)
  have keys: "map fst ?vs = map fst chain" by (induction chain) auto
  have each: "v' = verdict_of (matched_names steps key)" if "(key, v') \<in> set ?vs" for key v'
  proof -
    from that obtain val where m: "(key, val) \<in> set chain" and v': "v' = verdict_of val" by auto
    have "map_of chain key = Some val" using d m by (rule map_of_is_SomeI)
    then have "chain_val chain key = val" by (simp add: chain_val_def)
    then show ?thesis using v v' by simp
  qed
  show ?thesis
  proof (intro exI conjI allI impI)
    show "view_summary steps = Inr ?vs" by (rule vs)
    show "distinct (map fst ?vs)" using d by (simp only: keys)
  next
    fix key v'
    assume "(key, v') \<in> set ?vs"
    then have e: "v' = verdict_of (matched_names steps key)" by (rule each)
    note vc = verdict_of_cases [of "matched_names steps key"]
    { assume "length (matched_names steps key) = 2 \<and>
               matched_names steps key ! 0 = matched_names steps key ! 1"
      then show "v' = Connected (matched_names steps key ! 0)" using vc e by simp }
    { assume "2 < length (matched_names steps key)"
      then show "v' = Interference" using vc e by simp }
    { assume "length (matched_names steps key) = 1"
      then show "v' = Partial" using vc e by simp }
    { assume "matched_names steps key = [] \<or>
               (length (matched_names steps key) = 2 \<and>
                matched_names steps key ! 0 \<noteq> matched_names steps key ! 1)"
      then show "v' = NotConnected" using vc e by blast }
  qed
qed

theorem classifier_verdicts_witness:
  "list_all well_formed_step
      [[''extest'' \<mapsto> [''P1''], ''extestio'' \<mapsto> [''1 -> 0''],
        ''sample'' \<mapsto> [''S1'', ''S2''], ''sampleio'' \<mapsto> [''1 -> 0'', ''0 -> 1'']],
       [''extest'' \<mapsto> [''P1''], ''extestio'' \<mapsto> [''0 -> 1''],
        ''sample'' \<mapsto> [''S1''], ''sampleio'' \<mapsto> [''0 -> 1'']]] \<and>
   matched_names [[''extest'' \<mapsto> [''P1''], ''extestio'' \<mapsto> [''1 -> 0''],
                    ''sample'' \<mapsto> [''S1'', ''S2''], ''sampleio'' \<mapsto> [''1 -> 0'', ''0 -> 1'']],
                   [''extest'' \<mapsto> [''P1''], ''extestio'' \<mapsto> [''0 -> 1''],
                    ''sample'' \<mapsto> [''S1''], ''sampleio'' \<mapsto> [''0 -> 1'']]] ''P1''
     = [''S1'', ''S1''] \<and>
   view_summary [[''extest'' \<mapsto> [''P1''], ''extestio'' \<mapsto> [''1 -> 0''],
                    ''sample'' \<mapsto> [''S1'', ''S2''], ''sampleio'' \<mapsto> [''1 -> 0'', ''0 -> 1'']],
                   [''extest'' \<mapsto> [''P1''], ''extestio'' \<mapsto> [''0 -> 1''],
                    ''sample'' \<mapsto> [''S1''], ''sampleio'' \<mapsto> [''0 -> 1'']]]
     = Inr [(''P1'', Connected ''S1'')]"
proof -
  let ?steps = "[[''extest'' \<mapsto> [''P1''], ''extestio'' \<mapsto> [''1 -> 0''],
                    ''sample'' \<mapsto> [''S1'', ''S2''], ''sampleio'' \<mapsto> [''1 -> 0'', ''0 -> 1'']],
                   [''extest'' \<mapsto> [''P1''], ''extestio'' \<mapsto> [''0 -> 1''],
                    ''sample'' \<mapsto> [''S1''], ''sampleio'' \<mapsto> [''0 -> 1'']]]"
  have h: "\<forall>sd \<in> set ?steps. well_formed_step sd" by (simp add: well_formed_step_def)
  have m: "matched_names ?steps ''P1'' = [''S1'', ''S1'']"
    by (simp add: matched_names_def step_matches_def sample_matches_def)
  obtain vs where vs: "view_summary ?steps = Inr vs"
    and c: "\<forall>key v. (key, v) \<in> set vs \<longrightarrow>
              (length (matched_names ?steps key) = 2 \<and>
               matched_names ?steps key ! 0 = matched_names ?steps key ! 1 \<longrightarrow>
                 v = Connected (matched_names ?steps key ! 0))"
    using classifier_verdicts [OF h] by blast
  have keys: "map fst vs = [''P1'']"
    using vs
    by (auto simp: view_summary_def summary_chain_def dict_get_def list_get_def match_samples_def)
  then obtain v where v: "vs = [(''P1'', v)]" by (cases vs) auto
  then have "v = Connected ''S1''" using c m by simp
  then show ?thesis using h m vs v by (simp add: list_all_iff)
qed

text \<open>
  C10. For a session summary of well-formed step records, the keys of the printed lines
  are exactly the driver pin names that occur in the \<^verbatim>\<open>"extest"\<close> list of some step,
  that is the pins with an attributed EXTEST transition; any other pin has no line, hence
  no verdict.
\<close>

theorem verdict_keys:
  assumes "\<forall>sd \<in> set steps. well_formed_step sd"
  shows "\<exists>vs. view_summary steps = Inr vs \<and>
           (\<forall>key. (key \<in> fst ` set vs) = (key \<in> driver_names steps)) \<and>
           (\<forall>key. key \<notin> driver_names steps \<longrightarrow> map_of vs key = None)"
proof -
  obtain chain where c: "summary_chain steps = Inr chain"
    and k: "fst ` set chain = driver_names steps"
    using summary_chain_spec [OF assms] by blast
  let ?vs = "map (\<lambda>(key, val). (key, verdict_of val)) chain"
  have vs: "view_summary steps = Inr ?vs" by (simp add: view_summary_def c)
  have "map fst ?vs = map fst chain" by (induction chain) auto
  then have "fst ` set ?vs = fst ` set chain" by (metis list.set_map)
  then have keys: "fst ` set ?vs = driver_names steps" using k by simp
  then have "\<forall>key. key \<notin> driver_names steps \<longrightarrow> map_of ?vs key = None"
    by (simp add: map_of_eq_None_iff)
  then show ?thesis using vs keys by blast
qed


theorem verdict_keys_witness:
  "list_all well_formed_step
      [[''extest'' \<mapsto> [''P1''], ''extestio'' \<mapsto> [''1 -> 0''],
        ''sample'' \<mapsto> [], ''sampleio'' \<mapsto> []],
       [''extest'' \<mapsto> [], ''extestio'' \<mapsto> [],
        ''sample'' \<mapsto> [''S2''], ''sampleio'' \<mapsto> [''0 -> 1'']]] \<and>
   (\<exists>vs. view_summary [[''extest'' \<mapsto> [''P1''], ''extestio'' \<mapsto> [''1 -> 0''],
                    ''sample'' \<mapsto> [], ''sampleio'' \<mapsto> []],
                   [''extest'' \<mapsto> [], ''extestio'' \<mapsto> [],
                    ''sample'' \<mapsto> [''S2''], ''sampleio'' \<mapsto> [''0 -> 1'']]] = Inr vs \<and>
         fst ` set vs = {''P1''} \<and> map_of vs ''P2'' = None)"
proof -
  let ?steps = "[[''extest'' \<mapsto> [''P1''], ''extestio'' \<mapsto> [''1 -> 0''],
                    ''sample'' \<mapsto> [], ''sampleio'' \<mapsto> []],
                   [''extest'' \<mapsto> [], ''extestio'' \<mapsto> [],
                    ''sample'' \<mapsto> [''S2''], ''sampleio'' \<mapsto> [''0 -> 1'']]]"
  have h: "\<forall>sd \<in> set ?steps. well_formed_step sd" by (simp add: well_formed_step_def)
  have d: "driver_names ?steps = {''P1''}" by (simp add: driver_names_def)
  obtain vs where vs: "view_summary ?steps = Inr vs"
    and k: "\<forall>key. (key \<in> fst ` set vs) = (key \<in> driver_names ?steps)"
    and n: "\<forall>key. key \<notin> driver_names ?steps \<longrightarrow> map_of vs key = None"
    using verdict_keys [OF h] by blast
  have "fst ` set vs = {''P1''}" using k d by blast
  moreover have "map_of vs ''P2'' = None" using n d by simp
  ultimately show ?thesis using h vs by (auto simp: list_all_iff)
qed


section \<open>The session summary across a round\<close>

lemma dr_out_changes_lookup_InrD:
  assumes "dr_out_changes_lookup old new d sd key ws = Inr r"
  shows "length old \<le> length new"
proof (rule ccontr)
  assume "\<not> length old \<le> length new"
  then have "length new < length old" by simp
  then have "dr_out_changes_lookup old new d sd key ws = Inl IndexError"
    by (rule dr_out_changes_lookup_fail)
  with assms show False by simp
qed

lemma changed_bits_binary:
  assumes "binary old" and "binary new" and "length old \<le> length new"
    and "ch \<in> set (filter (attributed d ws) (changed_bits old new))"
  shows "change_io ch \<in> {''0 -> 1'', ''1 -> 0''}"
proof -
  obtain i where i: "i < length old" and ne: "old ! i \<noteq> new ! i"
    and ch: "ch = (i, old ! i, new ! i)"
    using assms(4) by (auto simp: changed_bits_def)
  have "old ! i \<in> set old" using i by simp
  then have o: "old ! i = CHR ''0'' \<or> old ! i = CHR ''1''" using assms(1) by (auto simp: binary_def)
  have "new ! i \<in> set new" using i assms(3) by simp
  then have n: "new ! i = CHR ''0'' \<or> new ! i = CHR ''1''" using assms(2) by (auto simp: binary_def)
  show ?thesis using o n ne by (auto simp: ch change_io_def io_string_def)
qed

lemma dr_shift_comapre_spec:
  assumes "dr_shift_comapre old new d sd key ws = Inr (r, sd')"
  shows "r = new \<and> length old \<le> length new \<and>
         sd' = (sd(key \<mapsto> map (change_pin d) (filter (attributed d ws) (changed_bits old new))))
                 (key @ ''io'' \<mapsto> map change_io (filter (attributed d ws) (changed_bits old new)))"
proof -
  obtain p where p: "dr_out_changes_lookup old new d sd key ws = Inr (p, sd')" and r: "r = new"
    using assms by (auto simp: dr_shift_comapre_def split: sum.splits)
  have l: "length old \<le> length new" using p by (rule dr_out_changes_lookup_InrD)
  show ?thesis using p r l by (simp add: dr_out_changes_lookup_ok)
qed

lemma step_record_well_formed:
  assumes e: "dr_shift_comapre old new d Map.empty ''extest'' ws = Inr (r1, sd1)"
    and s: "dr_shift_comapre olds news ds sd1 ''sample'' ws = Inr (r2, sd2)"
    and b: "binary old" "binary new"
  shows "well_formed_step sd2"
proof -
  note e' = dr_shift_comapre_spec [OF e]
  note s' = dr_shift_comapre_spec [OF s]
  let ?att = "filter (attributed d ws) (changed_bits old new)"
  have l: "length old \<le> length new" using e' by simp
  have "\<And>ch. ch \<in> set ?att \<Longrightarrow> change_io ch \<in> {''0 -> 1'', ''1 -> 0''}"
    by (rule changed_bits_binary [OF b l])
  then have "set (map change_io ?att) \<subseteq> {''0 -> 1'', ''1 -> 0''}" by auto
  moreover have "sd2 ''extest'' = Some (map (change_pin d) ?att)"
    and "sd2 ''extestio'' = Some (map change_io ?att)"
    and "sd2 ''sample'' = Some (map (change_pin ds) (filter (attributed ds ws) (changed_bits olds news)))"
    and "sd2 ''sampleio'' = Some (map change_io (filter (attributed ds ws) (changed_bits olds news)))"
    using e' s' by simp_all
  ultimately show ?thesis by (simp add: well_formed_step_def)
qed

lemma set_urc_bits_loop_spec:
  "set_urc_bits_loop urc k bs d ds ws init init_s sl = Inr sl' \<Longrightarrow>
   \<exists>new. sl' = sl @ new \<and> length new = length bs \<and>
         (binary init \<and> (\<forall>b \<in> set bs. binary b) \<longrightarrow> (\<forall>sd \<in> set new. well_formed_step sd))"
proof (induction bs arbitrary: k init init_s sl)
  case Nil
  then show ?case by simp
next
  case (Cons b bs)
  from Cons.prems obtain r1 sd1 r2 sd2 where
    e: "dr_shift_comapre (rev init) (rev b) d Map.empty ''extest'' ws = Inr (r1, sd1)" and
    s: "sample_run (urc k) ds init_s sd1 ''sample'' ws = Inr (r2, sd2)" and
    rest: "set_urc_bits_loop urc (Suc k) bs d ds ws (rev r1) (rev r2) (sl @ [sd2]) = Inr sl'"
    by (auto split: sum.splits)
  have r1: "rev r1 = b" using dr_shift_comapre_spec [OF e] by simp
  obtain new where n: "sl' = (sl @ [sd2]) @ new" "length new = length bs"
    "binary (rev r1) \<and> (\<forall>b \<in> set bs. binary b) \<longrightarrow> (\<forall>sd \<in> set new. well_formed_step sd)"
    using Cons.IH [OF rest] by blast
  have wf: "well_formed_step sd2" if "binary init" "binary b"
    using step_record_well_formed [OF e s [unfolded sample_run_def]] that
    by (simp add: binary_def)
  have "sl' = sl @ (sd2 # new)" using n(1) by simp
  moreover have "length (sd2 # new) = length (b # bs)" using n(2) by simp
  moreover have "binary init \<and> (\<forall>b \<in> set (b # bs). binary b) \<longrightarrow>
      (\<forall>sd \<in> set (sd2 # new). well_formed_step sd)"
    using n(3) wf r1 by auto
  ultimately show ?case by blast
qed


lemma set_urc_bits_appends:
  assumes "set_urc_bits urc bs d w ds init_s ws sl = Inr sl'"
  shows "\<exists>new. sl' = sl @ new \<and> length new = length bs"
  using set_urc_bits_loop_spec [OF assms [unfolded set_urc_bits_def]] by blast

lemma run_walks_spec:
  assumes "run_walks reads de ds st = Inr st1"
  shows "\<exists>zs os zl ol new.
           get_walkin_zeros_or_once_setup_string (dr_in_zeros reads) de 0 = Inr zs \<and>
           get_walkin_zeros_or_once_setup_string (dr_in_ones reads) de 1 = Inr os \<and>
           get_list_of_walkins_output_string de zs 0 = Inr zl \<and>
           get_list_of_walkins_output_string de os 1 = Inr ol \<and>
           summary_list st1 = summary_list st @ new \<and> length new = length zl + length ol"
proof -
  from assms obtain zs os zl ol sl1 sl2 where
    z: "get_walkin_zeros_or_once_setup_string (dr_in_zeros reads) de 0 = Inr zs" and
    o: "get_walkin_zeros_or_once_setup_string (dr_in_ones reads) de 1 = Inr os" and
    zl: "get_list_of_walkins_output_string de zs 0 = Inr zl" and
    s1: "set_urc_bits (sample_zeros reads) zl de zs ds (sample_init_zeros reads) 0 (summary_list st)
           = Inr sl1" and
    ol: "get_list_of_walkins_output_string de os 1 = Inr ol" and
    s2: "set_urc_bits (sample_ones reads) ol de os ds (sample_init_ones reads) 1 sl1 = Inr sl2" and
    st1: "summary_list st1 = sl2"
    by (auto simp: run_walks_def Let_def split: sum.splits)
  obtain n1 where n1: "sl1 = summary_list st @ n1" "length n1 = length zl"
    using set_urc_bits_appends [OF s1] by blast
  obtain n2 where n2: "sl2 = sl1 @ n2" "length n2 = length ol"
    using set_urc_bits_appends [OF s2] by blast
  have "summary_list st1 = summary_list st @ (n1 @ n2)" using st1 n1 n2 by simp
  moreover have "length (n1 @ n2) = length zl + length ol" using n1 n2 by simp
  ultimately show ?thesis using z o zl ol by blast
qed

lemmas eval_defs = main_loop_body_def run_walks_def get_walkin_zeros_or_once_setup_string_def
  get_list_of_walkins_output_string_def enable_control_def is_output_def set_bits_def
  slice_to_def slice_from_def str_int_def digits10.simps digit_char_def set_urc_bits_def
  dr_shift_comapre_def sample_run_def dr_out_changes_lookup_def differing_bits_def
  lookup_step_def io_string_def view_summary_def summary_chain_def dict_get_def list_get_def
  match_samples_def verdict_of_def session_start_def py_int_def digit_val_def

text \<open>
  C9. The accumulator \<^verbatim>\<open>summary_list\<close> is empty at the start; a successful call of
  \<open>set_urc_bits\<close> appends exactly one step record per bit string (walking step) and
  changes nothing else of it; over the two walks of a round it grows by the number of
  walking zeros vectors plus the number of walking ones vectors; and a round that
  completes hands the accumulated list to \<open>view_summary\<close> and leaves the accumulator
  empty (the assignment \<^verbatim>\<open>summary_list = []\<close> that follows the call in \<^verbatim>\<open>main\<close>).
\<close>

theorem summary_list_lifecycle:
  "summary_list session_start = [] \<and>
   (set_urc_bits urc bits_string_list d walkin_string ds init_s ws sl = Inr sl' \<longrightarrow>
      (\<exists>new. sl' = sl @ new \<and> length new = length bits_string_list)) \<and>
   (run_walks reads de dsm st = Inr walked \<longrightarrow>
      (\<exists>zs os zl ol new.
           get_walkin_zeros_or_once_setup_string (dr_in_zeros reads) de 0 = Inr zs \<and>
           get_walkin_zeros_or_once_setup_string (dr_in_ones reads) de 1 = Inr os \<and>
           get_list_of_walkins_output_string de zs 0 = Inr zl \<and>
           get_list_of_walkins_output_string de os 1 = Inr ol \<and>
           summary_list walked = summary_list st @ new \<and> length new = length zl + length ol)) \<and>
   (main_loop_body reads de dsm st = Inr (printed, st') \<longrightarrow>
      summary_list st' = [] \<and>
      (\<exists>st2. run_walks reads de dsm st = Inr st2 \<and>
             view_summary (summary_list st2) = Inr printed))"
proof (intro conjI impI)
  show "summary_list session_start = []" by (simp add: session_start_def)
next
  assume "set_urc_bits urc bits_string_list d walkin_string ds init_s ws sl = Inr sl'"
  then show "\<exists>new. sl' = sl @ new \<and> length new = length bits_string_list"
    by (rule set_urc_bits_appends)
next
  assume "run_walks reads de dsm st = Inr walked"
  then show "\<exists>zs os zl ol new.
           get_walkin_zeros_or_once_setup_string (dr_in_zeros reads) de 0 = Inr zs \<and>
           get_walkin_zeros_or_once_setup_string (dr_in_ones reads) de 1 = Inr os \<and>
           get_list_of_walkins_output_string de zs 0 = Inr zl \<and>
           get_list_of_walkins_output_string de os 1 = Inr ol \<and>
           summary_list walked = summary_list st @ new \<and> length new = length zl + length ol"
    by (rule run_walks_spec)
next
  assume m: "main_loop_body reads de dsm st = Inr (printed, st')"
  then show "summary_list st' = []"
    by (auto simp: main_loop_body_def split: sum.splits)
  from m show "\<exists>st2. run_walks reads de dsm st = Inr st2 \<and>
             view_summary (summary_list st2) = Inr printed"
    by (auto simp: main_loop_body_def split: sum.splits)
qed

theorem summary_list_lifecycle_witness:
  "set_urc_bits (\<lambda>k. ''0'') [''0''] demo_extest_dict ''1'' demo_sample_dict ''1'' 0 [] =
     Inr [[''extest'' \<mapsto> [''P1''], ''extestio'' \<mapsto> [''1 -> 0''],
           ''sample'' \<mapsto> [''S1''], ''sampleio'' \<mapsto> [''1 -> 0'']]] \<and>
   run_walks demo_reads demo_extest_dict demo_sample_dict session_start =
     Inr \<lparr>walkin_state = 1, summary_list =
           [[''extest'' \<mapsto> [''P1''], ''extestio'' \<mapsto> [''1 -> 0''],
             ''sample'' \<mapsto> [''S1''], ''sampleio'' \<mapsto> [''1 -> 0'']],
            [''extest'' \<mapsto> [''P1''], ''extestio'' \<mapsto> [''0 -> 1''],
             ''sample'' \<mapsto> [''S1''], ''sampleio'' \<mapsto> [''0 -> 1'']]]\<rparr> \<and>
   main_loop_body demo_reads demo_extest_dict demo_sample_dict session_start =
     Inr ([(''P1'', Connected ''S1'')], \<lparr>walkin_state = 1, summary_list = []\<rparr>) \<and>
   summary_list \<lparr>walkin_state = 1, summary_list = []\<rparr> = []"
proof -
  let ?a = "[''extest'' \<mapsto> [''P1''], ''extestio'' \<mapsto> [''1 -> 0''],
             ''sample'' \<mapsto> [''S1''], ''sampleio'' \<mapsto> [''1 -> 0'']]"
  let ?b = "[''extest'' \<mapsto> [''P1''], ''extestio'' \<mapsto> [''0 -> 1''],
             ''sample'' \<mapsto> [''S1''], ''sampleio'' \<mapsto> [''0 -> 1'']]"
  have e1: "set_urc_bits (\<lambda>k. ''0'') [''0''] demo_extest_dict ''1'' demo_sample_dict ''1'' 0 []
              = Inr [?a]"
    by (simp add: eval_defs demo_extest_dict_def demo_sample_dict_def)
  have e2: "run_walks demo_reads demo_extest_dict demo_sample_dict session_start =
              Inr \<lparr>walkin_state = 1, summary_list = [?a, ?b]\<rparr>"
    by (simp add: eval_defs demo_extest_dict_def demo_sample_dict_def demo_reads_def)
  have e3: "main_loop_body demo_reads demo_extest_dict demo_sample_dict session_start =
              Inr ([(''P1'', Connected ''S1'')], \<lparr>walkin_state = 1, summary_list = []\<rparr>)"
    by (simp add: eval_defs demo_extest_dict_def demo_sample_dict_def demo_reads_def)
  show ?thesis
    using e1 e2 e3
      summary_list_lifecycle [where urc = "\<lambda>k. ''0''" and bits_string_list = "[''0'']"
        and d = demo_extest_dict and walkin_string = "''1''" and ds = demo_sample_dict
        and init_s = "''1''" and ws = 0 and sl = "[]" and sl' = "[?a]"
        and reads = demo_reads and de = demo_extest_dict and dsm = demo_sample_dict
        and st = session_start and walked = "\<lparr>walkin_state = 1, summary_list = [?a, ?b]\<rparr>"
        and printed = "[(''P1'', Connected ''S1'')]"
        and st' = "\<lparr>walkin_state = 1, summary_list = []\<rparr>"]
    by simp
qed


section \<open>The walking vectors\<close>

lemma enable_control_valid:
  assumes "valid_pin n (b, info)" and "length s = n"
  shows "enable_control info s =
           Inr (if gated info then s[control_pos info := enable_char info] else s)"
proof (cases "control_bit info")
  case None
  then show ?thesis by (simp add: enable_control_def gated_def)
next
  case (Some cb)
  then obtain c where c: "py_int cb = Inr c"
    using assms(1) by (auto simp: valid_pin_def split: sum.splits)
  show ?thesis
  proof (cases "disable_value info")
    case None
    then show ?thesis using Some c by (simp add: enable_control_def gated_def)
  next
    case dv: (Some dvs)
    have r: "0 \<le> c" "c < int n" and e: "py_int dvs = Inr 0 \<or> py_int dvs = Inr 1"
      using assms(1) Some c dv by (auto simp: valid_pin_def)
    from e obtain dval where dval: "py_int dvs = Inr dval" "dval = 0 \<or> dval = 1" by auto
    have x: "str_int (1 XOR dval) = [enable_char info]"
      using dval dv by (auto simp: enable_char_def str_int_def digits10.simps digit_char_def)
    have "set_bits s c (1 XOR dval) = s[nat c := enable_char info]"
      using r assms(2) x by (simp add: set_bits_update)
    then show ?thesis
      using Some c dv dval by (simp add: enable_control_def gated_def control_pos_def)
  qed
qed

lemma data_and_control:
  assumes "valid_pin (length s) (b, info)" and "val = 0 \<or> val = 1"
  shows "enable_control info (set_bits s b val) = Inr (walk_vector s val (b, info))"
proof -
  have r: "0 \<le> b" "b < int (length s)" using assms(1) by (simp_all add: valid_pin_def)
  have u: "set_bits s b val = s[nat b := bit_char val]"
    using r assms(2) by (simp add: set_bits_update str_int_bit)
  have "length (s[nat b := bit_char val]) = length s" by simp
  then show ?thesis
    using enable_control_valid [OF assms(1)] by (simp add: u walk_vector_def)
qed

lemma walkins_step:
  assumes "valid_pin (length ws) (b, info)" and "val = 0 \<or> val = 1"
  shows "enable_control info (set_bits (rev ws) b val) = Inr (walk_vector (rev ws) val (b, info))"
  using data_and_control [of "rev ws" b info val] assms by simp

lemma walkins_loop_spec:
  assumes "val = 0 \<or> val = 1"
  shows "list_all (valid_pin (length ws)) (filter (\<lambda>p. is_output (snd p)) ps) \<Longrightarrow>
         walkins_loop ps ws val acc =
           Inr (acc @ map (\<lambda>p. rev (walk_vector (rev ws) val p))
                        (filter (\<lambda>p. is_output (snd p)) ps))"
proof (induction ps arbitrary: acc)
  case Nil
  then show ?case by simp
next
  case (Cons p ps)
  obtain b info where p: "p = (b, info)" by (cases p) auto
  show ?case
  proof (cases "is_output info")
    case True
    then have v: "valid_pin (length ws) (b, info)"
      and rest: "list_all (valid_pin (length ws)) (filter (\<lambda>p. is_output (snd p)) ps)"
      using Cons.prems by (simp_all add: p)
    show ?thesis
      using True Cons.IH [OF rest] by (simp add: p walkins_step [OF v assms])
  next
    case False
    then show ?thesis using Cons by (simp add: p)
  qed
qed

lemma valid_outputs_sorted:
  "valid_outputs n d \<Longrightarrow> list_all (valid_pin n) (output_pins d)"
  by (simp add: valid_outputs_def output_pins_def list_all_iff)

lemma get_list_spec:
  assumes "valid_outputs (length ws) d" and "val = 0 \<or> val = 1"
  shows "get_list_of_walkins_output_string d ws val =
           Inr (map (\<lambda>p. rev (walk_vector (rev ws) val p)) (output_pins d))"
  using walkins_loop_spec [OF assms(2), of ws "sort_key fst d" "[]"]
    valid_outputs_sorted [OF assms(1)]
  by (simp add: get_list_of_walkins_output_string_def output_pins_def)

lemma output_pins_length: "length (output_pins d) = length (filter (\<lambda>p. is_output (snd p)) d)"
  by (simp add: output_pins_def filter_sort)

lemma output_pins_set: "set (output_pins d) = {p \<in> set d. is_output (snd p)}"
  by (auto simp: output_pins_def)

lemma output_pins_ascending:
  assumes "distinct (map fst d)"
  shows "sorted_wrt (<) (map fst (output_pins d))"
proof -
  have "sorted (map fst (sort_key fst (filter (\<lambda>p. is_output (snd p)) d)))"
    by (rule sorted_sort_key)
  moreover have "distinct (map fst (sort_key fst (filter (\<lambda>p. is_output (snd p)) d)))"
    using assms by (auto simp: distinct_map intro: inj_on_subset distinct_filter)
  ultimately show ?thesis by (simp add: output_pins_def filter_sort strict_sorted_iff)
qed

lemma walk_vector_length: "length (walk_vector base val p) = length base"
  by (cases p) (simp add: walk_vector_def)

lemma walk_vector_elsewhere:
  assumes "i \<noteq> nat (fst p)" and "\<not> (gated (snd p) \<and> i = control_pos (snd p))"
  shows "walk_vector base val p ! i = base ! i"
  using assms by (cases p) (auto simp: walk_vector_def)

lemma walk_vector_data_bit:
  assumes "nat (fst p) < length base" and "\<not> (gated (snd p) \<and> control_pos (snd p) = nat (fst p))"
  shows "walk_vector base val p ! nat (fst p) = bit_char val"
  using assms by (cases p) (auto simp: walk_vector_def)


text \<open>
  C2. For a pin table with distinct bit indices whose output and bidirectional pins fit
  the register of the baseline, and a walk level 0 or 1, the generator returns one vector
  per output or bidirectional pin (as many as the table has), the \<open>k\<close>-th vector
  belonging to the \<open>k\<close>-th such pin in strictly ascending order of bit index. Read in
  logical order, each vector is the baseline itself (not an earlier vector) with that
  pin's bit at the walk level and, if the pin is gated, its control bit at the enable
  value: it has the length of the baseline, agrees with the baseline at every position
  other than these two, and holds the walk level at the pin's bit (unless a pin names
  its own bit as its control bit).
\<close>

theorem per_pin_walking_vectors:
  assumes "distinct (map fst d)" and "valid_outputs (length walkin_string) d"
    and "val = 0 \<or> val = 1"
  shows "\<exists>vs. get_list_of_walkins_output_string d walkin_string val = Inr vs \<and>
           length vs = length (filter (\<lambda>p. is_output (snd p)) d) \<and>
           length (output_pins d) = length vs \<and>
           sorted_wrt (<) (map fst (output_pins d)) \<and>
           set (output_pins d) = {p \<in> set d. is_output (snd p)} \<and>
           (\<forall>k < length vs.
              rev (vs ! k) = walk_vector (rev walkin_string) val (output_pins d ! k) \<and>
              length (vs ! k) = length walkin_string \<and>
              (\<forall>i. i \<noteq> nat (fst (output_pins d ! k)) \<and>
                   \<not> (gated (snd (output_pins d ! k)) \<and> i = control_pos (snd (output_pins d ! k)))
                   \<longrightarrow> rev (vs ! k) ! i = rev walkin_string ! i) \<and>
              (\<not> (gated (snd (output_pins d ! k)) \<and>
                   control_pos (snd (output_pins d ! k)) = nat (fst (output_pins d ! k)))
                 \<longrightarrow> rev (vs ! k) ! nat (fst (output_pins d ! k)) = bit_char val))"
proof -
  let ?vs = "map (\<lambda>p. rev (walk_vector (rev walkin_string) val p)) (output_pins d)"
  have g: "get_list_of_walkins_output_string d walkin_string val = Inr ?vs"
    using assms(2,3) by (rule get_list_spec)
  have each: "rev (?vs ! k) = walk_vector (rev walkin_string) val (output_pins d ! k) \<and>
              length (?vs ! k) = length walkin_string \<and>
              (\<forall>i. i \<noteq> nat (fst (output_pins d ! k)) \<and>
                   \<not> (gated (snd (output_pins d ! k)) \<and> i = control_pos (snd (output_pins d ! k)))
                   \<longrightarrow> rev (?vs ! k) ! i = rev walkin_string ! i) \<and>
              (\<not> (gated (snd (output_pins d ! k)) \<and>
                   control_pos (snd (output_pins d ! k)) = nat (fst (output_pins d ! k)))
                 \<longrightarrow> rev (?vs ! k) ! nat (fst (output_pins d ! k)) = bit_char val)"
    if k: "k < length ?vs" for k
  proof -
    let ?p = "output_pins d ! k"
    have kk: "k < length (output_pins d)" using k by simp
    have r: "rev (?vs ! k) = walk_vector (rev walkin_string) val ?p" using kk by simp
    have "?p \<in> set (output_pins d)" using kk by (rule nth_mem)
    then have "valid_pin (length walkin_string) ?p"
      using valid_outputs_sorted [OF assms(2)] by (simp add: list_all_iff)
    then have b: "nat (fst ?p) < length (rev walkin_string)"
      by (cases ?p) (auto simp: valid_pin_def)
    have l: "length (?vs ! k) = length walkin_string"
      using kk by (simp add: walk_vector_length)
    show ?thesis
      unfolding r using l r walk_vector_elsewhere walk_vector_data_bit [OF b] by auto
  qed
  show ?thesis
    using g each output_pins_length [of d] output_pins_ascending [OF assms(1)] output_pins_set [of d]
    by (intro exI [of _ ?vs]) simp
qed

theorem per_pin_walking_vectors_witness:
  "distinct (map fst demo_gated_dict) \<and>
   get_list_of_walkins_output_string demo_gated_dict ''111'' 0 = Inr [''110'', ''001''] \<and>
   map fst (output_pins demo_gated_dict) = [0, 1]"
proof -
  let ?p0 = "(0::int, \<lparr>io_type = ''B'', safe_value = ''1'', pin_name = ''P0'', control_bit = None,
            disable_value = None, disable_status = None\<rparr>)"
  let ?p1 = "(1::int, \<lparr>io_type = ''O'', safe_value = ''1'', pin_name = ''P1'',
            control_bit = Some ''2'', disable_value = Some ''1'', disable_status = Some ''Z''\<rparr>)"
  have h1: "distinct (map fst demo_gated_dict)" by (simp add: demo_gated_dict_def)
  have h2: "valid_outputs (length ''111'') demo_gated_dict"
    by (simp add: valid_outputs_def demo_gated_dict_def is_output_def valid_pin_def
        py_int_def digit_val_def)
  have h3: "(0::int) = 0 \<or> (0::int) = 1" by simp
  have o: "output_pins demo_gated_dict = [?p0, ?p1]"
    by (simp add: output_pins_def demo_gated_dict_def is_output_def)
  obtain vs where vs: "get_list_of_walkins_output_string demo_gated_dict ''111'' 0 = Inr vs"
    and n: "length (output_pins demo_gated_dict) = length vs"
    and e: "\<forall>k < length vs.
              rev (vs ! k) = walk_vector (rev ''111'') 0 (output_pins demo_gated_dict ! k)"
    using per_pin_walking_vectors [OF h1 h2 h3] by blast
  have len: "length vs = 2" using n unfolding o by simp
  have "rev (vs ! 0) = walk_vector (rev ''111'') 0 ?p0"
    and "rev (vs ! 1) = walk_vector (rev ''111'') 0 ?p1"
    using e len unfolding o by simp_all
  then have "rev (vs ! 0) = ''011''" and "rev (vs ! 1) = ''100''"
    by (simp_all add: walk_vector_def gated_def control_pos_def
        enable_char_def bit_char_def py_int_def digit_val_def)
  then have "rev (rev (vs ! 0)) = rev ''011''" and "rev (rev (vs ! 1)) = rev ''100''"
    by simp_all
  then have "vs ! 0 = ''110''" and "vs ! 1 = ''001''" by simp_all
  then have "vs = [''110'', ''001'']"
    using len by (intro nth_equalityI) (auto simp: less_Suc_eq numeral_2_eq_2)
  then show ?thesis using h1 vs unfolding o by simp
qed


section \<open>Enabling gated pins\<close>

lemma setup_step_length: "length (setup_step val s p) = length s"
  by (simp add: setup_step_def walk_vector_length)

lemma xor_one_bit: "val = 0 \<or> val = 1 \<Longrightarrow> val XOR 1 = 0 \<or> val XOR (1::int) = 1"
  by auto

lemma setup_loop_spec:
  assumes "val = 0 \<or> val = 1"
  shows "list_all (valid_pin (length s)) (filter (\<lambda>p. is_output (snd p)) ps) \<Longrightarrow>
         setup_loop ps val s = Inr (foldl (setup_step val) s ps)"
proof (induction ps arbitrary: s)
  case Nil
  then show ?case by simp
next
  case (Cons p ps)
  obtain b info where p: "p = (b, info)" by (cases p) auto
  show ?case
  proof (cases "is_output info")
    case True
    then have v: "valid_pin (length s) (b, info)"
      and rest: "list_all (valid_pin (length s)) (filter (\<lambda>p. is_output (snd p)) ps)"
      using Cons.prems by (simp_all add: p)
    let ?s1 = "walk_vector s (val XOR 1) (b, info)"
    have l: "length ?s1 = length s" by (rule walk_vector_length)
    have "setup_loop (p # ps) val s = setup_loop ps val ?s1"
      using True by (simp add: p data_and_control [OF v xor_one_bit [OF assms]])
    also have "\<dots> = Inr (foldl (setup_step val) ?s1 ps)"
      using Cons.IH [of ?s1] rest by (simp add: l)
    finally have m: "setup_loop (p # ps) val s = Inr (foldl (setup_step val) ?s1 ps)" .
    have f: "foldl (setup_step val) s (p # ps) = foldl (setup_step val) ?s1 ps"
      using True by (simp add: p setup_step_def)
    show ?thesis by (simp only: m f)
  next
    case False
    then show ?thesis using Cons by (simp add: p setup_step_def)
  qed
qed

lemma foldl_setup_length: "length (foldl (setup_step val) s ps) = length s"
  by (induction ps arbitrary: s) (simp_all add: setup_step_length)

lemma walk_vector_keeps:
  assumes "keeps_enabled c p" and "is_output (snd p)" and "c < length s" and "s ! c = CHR ''0''"
  shows "walk_vector s v p ! c = CHR ''0''"
  using assms by (cases p) (auto simp: keeps_enabled_def walk_vector_def split: if_splits)

lemma walk_vector_enables:
  assumes "gated (snd p)" and "control_pos (snd p) = c" and "enable_char (snd p) = CHR ''0''"
    and "c < length s"
  shows "walk_vector s v p ! c = CHR ''0''"
  using assms by (cases p) (auto simp: walk_vector_def)

lemma setup_step_keeps:
  assumes "keeps_enabled c p" and "c < length s" and "s ! c = CHR ''0''"
  shows "setup_step val s p ! c = CHR ''0''"
  using assms by (simp add: setup_step_def walk_vector_keeps)

lemma foldl_setup_keeps:
  "list_all (keeps_enabled c) ps \<Longrightarrow> c < length s \<Longrightarrow> s ! c = CHR ''0'' \<Longrightarrow>
   foldl (setup_step val) s ps ! c = CHR ''0''"
  by (induction ps arbitrary: s) (simp_all add: setup_step_keeps setup_step_length)

lemma foldl_setup_enables:
  "list_all (keeps_enabled c) ps \<Longrightarrow> c < length s \<Longrightarrow>
   p \<in> set ps \<Longrightarrow> is_output (snd p) \<Longrightarrow> gated (snd p) \<Longrightarrow> control_pos (snd p) = c \<Longrightarrow>
   enable_char (snd p) = CHR ''0'' \<Longrightarrow>
   foldl (setup_step val) s ps ! c = CHR ''0''"
proof (induction ps arbitrary: s)
  case Nil
  then show ?case by simp
next
  case (Cons q ps)
  have l: "c < length (setup_step val s q)" using Cons.prems(2) by (simp add: setup_step_length)
  have rest: "list_all (keeps_enabled c) ps" using Cons.prems(1) by simp
  show ?case
  proof (cases "p = q")
    case True
    have "setup_step val s q ! c = CHR ''0''"
      using Cons.prems True by (simp add: setup_step_def walk_vector_enables)
    then show ?thesis using foldl_setup_keeps [OF rest l] by simp
  next
    case False
    then have "p \<in> set ps" using Cons.prems(3) by simp
    then show ?thesis using Cons.IH [OF rest l] Cons.prems by simp
  qed
qed


text \<open>
  C6, as the code has it. Take a pin table whose output and bidirectional pins fit the
  register, a walk level 0 or 1, and an output or bidirectional pin with control bit
  \<open>c\<close> and disable value 1. The generators write the bits in ascending order of bit
  index and the last write to a position wins. So, provided no output or bidirectional
  pin has \<open>c\<close> as its own bit and every gated one with control bit \<open>c\<close> also has the
  enable value 0, the baseline and every walking vector generated from it hold 0 at
  position \<open>c\<close> (in logical order).
\<close>

theorem gated_pin_enable_policy:
  assumes valid: "valid_outputs (length dr_in_string) d"
    and val: "val = 0 \<or> val = 1"
    and pin: "(b, info) \<in> set d" "is_output info" "control_bit info = Some cb"
      "py_int cb = Inr c" "disable_value info = Some ''1''"
    and others: "list_all (keeps_enabled (nat c)) d"
  shows "\<exists>base vs.
           get_walkin_zeros_or_once_setup_string dr_in_string d val = Inr base \<and>
           length base = length dr_in_string \<and> rev base ! nat c = CHR ''0'' \<and>
           get_list_of_walkins_output_string d base val = Inr vs \<and>
           length vs = length (output_pins d) \<and>
           list_all (\<lambda>v. rev v ! nat c = CHR ''0'') vs"
proof -
  let ?n = "length dr_in_string"
  let ?ps = "sort_key fst d"
  let ?s = "foldl (setup_step val) dr_in_string ?ps"
  have one: "py_int ''1'' = Inr 1" by (simp add: py_int_def digit_val_def)
  have "(b, info) \<in> set (filter (\<lambda>p. is_output (snd p)) d)" using pin(1,2) by simp
  then have vp: "valid_pin ?n (b, info)"
    using valid by (simp add: valid_outputs_def list_all_iff)
  then have c: "nat c < ?n" using pin(3,4,5) by (auto simp: valid_pin_def)
  have g: "gated (snd (b, info))" using pin(3,5) by (simp add: gated_def)
  have cp: "control_pos (snd (b, info)) = nat c" using pin(3,4) by (simp add: control_pos_def)
  have en: "enable_char (snd (b, info)) = CHR ''0''" using pin(5) one by (simp add: enable_char_def)
  have ks: "list_all (keeps_enabled (nat c)) ?ps" using others by (simp add: list_all_iff)
  have vs: "list_all (valid_pin ?n) (filter (\<lambda>p. is_output (snd p)) ?ps)"
    using valid_outputs_sorted [OF valid] by (simp add: output_pins_def)
  have base: "get_walkin_zeros_or_once_setup_string dr_in_string d val = Inr (rev ?s)"
    using setup_loop_spec [OF val vs] by (simp add: get_walkin_zeros_or_once_setup_string_def)
  have len: "length ?s = ?n" by (rule foldl_setup_length)
  have "(b, info) \<in> set ?ps" using pin(1) by simp
  then have zero: "?s ! nat c = CHR ''0''"
    using foldl_setup_enables [OF ks c _ _ g cp en] pin(2) by simp
  have valid': "valid_outputs (length (rev ?s)) d" using valid len by simp
  have list: "get_list_of_walkins_output_string d (rev ?s) val =
        Inr (map (\<lambda>p. rev (walk_vector (rev (rev ?s)) val p)) (output_pins d))"
    using valid' val by (rule get_list_spec)
  have each: "list_all (\<lambda>v. rev v ! nat c = CHR ''0'')
        (map (\<lambda>p. rev (walk_vector (rev (rev ?s)) val p)) (output_pins d))"
  proof -
    have "walk_vector ?s val p ! nat c = CHR ''0''" if "p \<in> set (output_pins d)" for p
    proof -
      have "p \<in> set d" and o: "is_output (snd p)" using that by (simp_all add: output_pins_set)
      then have "keeps_enabled (nat c) p" using others by (simp add: list_all_iff)
      then show ?thesis using o c zero len by (simp add: walk_vector_keeps)
    qed
    then show ?thesis by (simp add: list_all_iff)
  qed
  show ?thesis
    using base len zero list each by (intro exI conjI) simp_all
qed

theorem gated_pin_enable_policy_witness:
  "get_walkin_zeros_or_once_setup_string ''000'' demo_gated_dict 0 = Inr ''011'' \<and>
   rev ''011'' ! 2 = CHR ''0'' \<and>
   get_list_of_walkins_output_string demo_gated_dict ''011'' 0 = Inr [''010'', ''001''] \<and>
   list_all (\<lambda>v. rev v ! 2 = CHR ''0'') [''010'', ''001'']"
proof -
  let ?info = "\<lparr>io_type = ''O'', safe_value = ''1'', pin_name = ''P1'', control_bit = Some ''2'',
            disable_value = Some ''1'', disable_status = Some ''Z''\<rparr>"
  have h1: "valid_outputs (length ''000'') demo_gated_dict"
    by (simp add: valid_outputs_def demo_gated_dict_def is_output_def valid_pin_def
        py_int_def digit_val_def)
  have h2: "(0::int) = 0 \<or> (0::int) = 1" by simp
  have h3: "(1, ?info) \<in> set demo_gated_dict" by (simp add: demo_gated_dict_def)
  have h4: "is_output ?info" by (simp add: is_output_def)
  have h5: "control_bit ?info = Some ''2''" by simp
  have h6: "py_int ''2'' = Inr 2" by (simp add: py_int_def digit_val_def)
  have h7: "disable_value ?info = Some ''1''" by simp
  have h8: "list_all (keeps_enabled (nat 2)) demo_gated_dict"
    by (simp add: demo_gated_dict_def keeps_enabled_def is_output_def gated_def control_pos_def
        enable_char_def py_int_def digit_val_def)
  have e1: "get_walkin_zeros_or_once_setup_string ''000'' demo_gated_dict 0 = Inr ''011''"
    by (simp add: eval_defs demo_gated_dict_def)
  have e2: "get_list_of_walkins_output_string demo_gated_dict ''011'' 0 = Inr [''010'', ''001'']"
    by (simp add: eval_defs demo_gated_dict_def)
  show ?thesis
    using e1 e2 gated_pin_enable_policy [OF h1 h2 h3 h4 h5 h6 h7 h8] by auto
qed

text \<open>
  Two output pins share the control bit 2, the first with disable value 1, the second
  with disable value 0. The baseline for walking zeros from the register \<^verbatim>\<open>000\<close> is
  \<^verbatim>\<open>111\<close>: the second pin's enable value 1 overwrites the 0 written for the first,
  and the control bit of the pin with disable value 1 is not 0.
\<close>

theorem shared_control_bit_counterexample:
  "is_output (snd (demo_shared_control_dict ! 0)) \<and>
   control_bit (snd (demo_shared_control_dict ! 0)) = Some ''2'' \<and>
   disable_value (snd (demo_shared_control_dict ! 0)) = Some ''1'' \<and>
   get_walkin_zeros_or_once_setup_string ''000'' demo_shared_control_dict 0 = Inr ''111'' \<and>
   rev ''111'' ! 2 = CHR ''1''"
  by (simp add: eval_defs demo_shared_control_dict_def)

end
